theory Spec2Isabelle
  imports Main "HOL-Library.Word" "HOL-Library.Signed_Division"
begin

unbundle bit_operations_syntax

section \<open>Data model\<close>

type_synonym byte = "8 word"
type_synonym uint32 = "32 word"

text \<open>
  A Go \<open>time.Duration\<close> is a signed 64-bit count of nanoseconds.
\<close>

type_synonym Duration = "64 word"

text \<open>
  Go's \<open>error\<close> values that occur in the two source files. \<open>None\<close> of type
  \<open>error option\<close> is Go's \<open>nil\<close>. \<open>ErrNil\<close> is \<open>redis.ErrNil\<close>; \<open>Error s\<close> is
  any other error handed back by a collaborator, identified by the text its \<open>Error()\<close>
  method returns; \<open>Errorf f args\<close> is \<open>fmt.Errorf(f, args...)\<close>; \<open>MultiError\<close> is
  the positional container \<open>nds.MultiError\<close>.
\<close>

datatype error =
    ErrInvalidKey
  | ErrNotStored
  | ErrCASConflict
  | ErrCacheMiss
  | ErrNil
  | Error string
  | Errorf string "nat list"
  | MultiError "error option list"

text \<open>The fields of \<open>memcache.Item\<close> that \<open>deleteMulti\<close> fills in.\<close>

record memcache_Item =
  Key :: string
  Flags :: uint32
  Value :: "byte list"
  Expiration :: Duration

section \<open>The delete coordinator\<close>

text \<open>
  \<open>appengine.Context\<close> is an interface; \<open>c.(*context)\<close> succeeds exactly for the
  package's own context type. The payload of each constructor identifies the context.
\<close>

datatype Context = NdsContext nat | OtherContext nat

text \<open>
  The collaborators of \<open>deleteMulti\<close> that live outside the file: the store key's
  \<open>Incomplete\<close> method, \<open>createMemcacheKey\<close>, the constants \<open>memcacheLock\<close> and
  \<open>memcacheLockTime\<close>, the random source behind \<open>rand.Uint32\<close>, and the two services
  \<open>memcache.SetMulti\<close> and \<open>datastore.DeleteMulti\<close>, which act on a world \<open>'w\<close>
  (the cache and the store) and return Go's error result. A key is a value of \<open>'k\<close>:
  the nil pointer, on which \<open>Incomplete\<close> cannot be called, is not among the keys.
\<close>

record ('k, 'r, 'w) env =
  Incomplete :: "'k \<Rightarrow> bool"
  createMemcacheKey :: "'k \<Rightarrow> string"
  memcacheLock :: "byte list"
  memcacheLockTime :: Duration
  rand_Uint32 :: "'r \<Rightarrow> uint32 \<times> 'r"
  memcache_SetMulti :: "'w \<Rightarrow> Context \<Rightarrow> memcache_Item list \<Rightarrow> error option \<times> 'w"
  datastore_DeleteMulti :: "'w \<Rightarrow> Context \<Rightarrow> 'k list \<Rightarrow> error option \<times> 'w"

text \<open>Every call that reaches the cache or the store is recorded, in order.\<close>

datatype 'k call =
    CacheSetMulti Context "memcache_Item list"
  | StoreDeleteMulti Context "'k list"

record ('k, 'r, 'w) state =
  rng :: 'r
  world :: 'w
  calls :: "'k call list"

definition call_SetMulti ::
  "('k, 'r, 'w) env \<Rightarrow> Context \<Rightarrow> memcache_Item list \<Rightarrow> ('k, 'r, 'w) state
    \<Rightarrow> error option \<times> ('k, 'r, 'w) state" where
  "call_SetMulti E c items s =
     (case memcache_SetMulti E (world s) c items of
        (err, w') \<Rightarrow> (err, s\<lparr>world := w', calls := calls s @ [CacheSetMulti c items]\<rparr>))"

definition call_DeleteMulti ::
  "('k, 'r, 'w) env \<Rightarrow> Context \<Rightarrow> 'k list \<Rightarrow> ('k, 'r, 'w) state
    \<Rightarrow> error option \<times> ('k, 'r, 'w) state" where
  "call_DeleteMulti E c keys s =
     (case datastore_DeleteMulti E (world s) c keys of
        (err, w') \<Rightarrow> (err, s\<lparr>world := w', calls := calls s @ [StoreDeleteMulti c keys]\<rparr>))"

text \<open>
  The loop of \<open>deleteMulti\<close> (lines 26 to 38): it returns \<open>Inl ErrInvalidKey\<close> at the
  first incomplete key, and otherwise appends one item per key, drawing one number from
  the random source for each. The random source's state is threaded through, so the draws
  made before an incomplete key is met stay made.
\<close>

fun lock_items ::
  "('k, 'r, 'w) env \<Rightarrow> 'k list \<Rightarrow> memcache_Item list \<Rightarrow> 'r
    \<Rightarrow> (error + memcache_Item list) \<times> 'r" where
  "lock_items E [] acc r = (Inr acc, r)"
| "lock_items E (key # keys) acc r =
     (if Incomplete E key then (Inl ErrInvalidKey, r)
      else (case rand_Uint32 E r of
              (f, r') \<Rightarrow>
                lock_items E keys
                  (acc @ [\<lparr>Key = createMemcacheKey E key, Flags = f,
                           Value = memcacheLock E, Expiration = memcacheLockTime E\<rparr>]) r'))"

definition deleteMulti ::
  "('k, 'r, 'w) env \<Rightarrow> Context \<Rightarrow> 'k list \<Rightarrow> ('k, 'r, 'w) state
    \<Rightarrow> error option \<times> ('k, 'r, 'w) state" where
  "deleteMulti E cc keys s =
     (case lock_items E keys [] (rng s) of
        (Inl e, r') \<Rightarrow> (Some e, s\<lparr>rng := r'\<rparr>)
      | (Inr lockMemcacheItems, r') \<Rightarrow>
          (case call_SetMulti E cc lockMemcacheItems (s\<lparr>rng := r'\<rparr>) of
             (Some err, s') \<Rightarrow> (Some err, s')
           | (None, s') \<Rightarrow> call_DeleteMulti E cc keys s'))"

definition DeleteMulti ::
  "('k, 'r, 'w) env \<Rightarrow> Context \<Rightarrow> 'k list \<Rightarrow> ('k, 'r, 'w) state
    \<Rightarrow> error option \<times> ('k, 'r, 'w) state" where
  "DeleteMulti E c keys s =
     (case c of
        NdsContext n \<Rightarrow> deleteMulti E (NdsContext n) keys s
      | OtherContext n \<Rightarrow> call_DeleteMulti E c keys s)"

definition Delete ::
  "('k, 'r, 'w) env \<Rightarrow> Context \<Rightarrow> 'k \<Rightarrow> ('k, 'r, 'w) state
    \<Rightarrow> error option \<times> ('k, 'r, 'w) state" where
  "Delete E c key s = DeleteMulti E c [key] s"

text \<open>The first \<open>n\<close> numbers the random source hands out, and its state afterwards.\<close>

fun draws :: "('r \<Rightarrow> uint32 \<times> 'r) \<Rightarrow> nat \<Rightarrow> 'r \<Rightarrow> uint32 list \<times> 'r" where
  "draws g 0 r = ([], r)"
| "draws g (Suc n) r =
     (case g r of (f, r') \<Rightarrow> (case draws g n r' of (fs, r'') \<Rightarrow> (f # fs, r'')))"

text \<open>The lock marker for one key, given its token.\<close>

definition lock_marker :: "('k, 'r, 'w) env \<Rightarrow> 'k \<Rightarrow> uint32 \<Rightarrow> memcache_Item" where
  "lock_marker E key f =
     \<lparr>Key = createMemcacheKey E key, Flags = f,
      Value = memcacheLock E, Expiration = memcacheLockTime E\<rparr>"

text \<open>
  The lock markers of a batch: key \<open>i\<close> gets the \<open>i\<close>-th number drawn from the
  random source in state \<open>r\<close>.
\<close>

definition lock_markers :: "('k, 'r, 'w) env \<Rightarrow> 'k list \<Rightarrow> 'r \<Rightarrow> memcache_Item list" where
  "lock_markers E keys r =
     map2 (lock_marker E) keys (fst (draws (rand_Uint32 E) (length keys) r))"

text \<open>
  A concrete environment for evaluation: keys are integers, a key is incomplete when it
  is \<open>0\<close>; the random source is a counter; the cache refuses a batch that holds the key
  \<open>''bad''\<close>; the world counts the calls it served.
\<close>

definition demo_env :: "(int, nat, nat) env" where
  "demo_env =
     \<lparr>Incomplete = (\<lambda>k. k = 0),
      createMemcacheKey = (\<lambda>k. if k < 0 then ''bad'' else ''NDS:key''),
      memcacheLock = [1, 2, 3],
      memcacheLockTime = 32000000000,
      rand_Uint32 = (\<lambda>r. (of_nat (7 * r + 5), Suc r)),
      memcache_SetMulti =
        (\<lambda>w c items. (if ''bad'' \<in> set (map Key items) then Some (Error ''cache down'') else None,
                       Suc w)),
      datastore_DeleteMulti =
        (\<lambda>w c keys. (if 99 \<in> set keys then Some (MultiError [Some (Error ''gone'')]) else None,
                      Suc w))\<rparr>"

definition demo_state :: "(int, nat, nat) state" where
  "demo_state = \<lparr>rng = 0, world = 0, calls = []\<rparr>"

section \<open>The pipelined cache backend\<close>

subsection \<open>Items and the wire payload\<close>

text \<open>
  \<open>nds.Item\<close> carries, beside the fields above, the value of \<open>SetCASInfo\<close>: an
  \<open>interface{}\<close>. The type assertion \<open>item.GetCASInfo().([]byte)\<close> succeeds for
  \<open>NilBytes\<close> (a nil slice) and for \<open>Bytes\<close>, and the slice is non-nil for \<open>Bytes\<close>
  only.
\<close>

datatype CASInfo = NilInterface | NilBytes | Bytes "byte list" | OtherType

record Item = memcache_Item +
  casInfo :: CASInfo

text \<open>\<open>binary.LittleEndian\<close>'s \<open>PutUint32\<close> and \<open>Uint32\<close>.\<close>

definition PutUint32 :: "uint32 \<Rightarrow> byte list" where
  "PutUint32 v = [ucast v, ucast (drop_bit 8 v), ucast (drop_bit 16 v), ucast (drop_bit 24 v)]"

definition Uint32 :: "byte list \<Rightarrow> uint32" where
  "Uint32 b = ucast (b ! 0) OR push_bit 8 (ucast (b ! 1)) OR push_bit 16 (ucast (b ! 2))
                OR push_bit 24 (ucast (b ! 3))"

text \<open>
  Lines 86 to 89 (and 155 to 158): the buffer is reset, the flags are written with
  \<open>binary.Write\<close> in little-endian order, and the value is written after them.
\<close>

definition encode_payload :: "uint32 \<Rightarrow> byte list \<Rightarrow> byte list" where
  "encode_payload flags val = PutUint32 flags @ val"

text \<open>
  \<open>binary.Read(buf, binary.LittleEndian, &flags)\<close> on a buffer holding \<open>b\<close>: it
  takes four bytes and leaves the rest in the buffer; with fewer than four bytes it
  fails, with \<open>io.EOF\<close> on an empty buffer and \<open>io.ErrUnexpectedEOF\<close> otherwise.
\<close>

definition binary_Read :: "byte list \<Rightarrow> error + (uint32 \<times> byte list)" where
  "binary_Read b =
     (if length b = 0 then Inl (Error ''EOF'')
      else if length b < 4 then Inl (Error ''unexpected EOF'')
      else Inr (Uint32 (take 4 b), drop 4 b))"

subsection \<open>Durations\<close>

text \<open>
  Go's \<open>/\<close> and \<open>%\<close> on \<open>int64\<close> truncate towards zero and wrap around at 64 bits.
\<close>

definition int64_quo :: "64 word \<Rightarrow> 64 word \<Rightarrow> 64 word" where
  "int64_quo a b = word_of_int (sint a sdiv sint b)"

definition int64_rem :: "64 word \<Rightarrow> 64 word \<Rightarrow> 64 word" where
  "int64_rem a b = word_of_int (sint a smod sint b)"

definition Millisecond :: Duration where
  "Millisecond = 1000000"

text \<open>\<open>Duration.Truncate\<close>: \<open>if m <= 0 { return d }; return d - d%m\<close>.\<close>

definition Truncate :: "Duration \<Rightarrow> Duration \<Rightarrow> Duration" where
  "Truncate d m = (if sint m \<le> 0 then d else d - int64_rem d m)"

subsection \<open>The connection\<close>

text \<open>An argument of a command handed to \<open>Send\<close>.\<close>

datatype arg = StringArg string | BytesArg "byte list" | Int64Arg "64 word"

text \<open>
  What the backend uses of a checked-out connection in state \<open>'c\<close>: \<open>Send\<close>,
  \<open>Flush\<close>, \<open>Receive\<close> (the backend drops the reply and keeps the error),
  \<open>Receive_Int64\<close> for \<open>redis.Int64(conn.Receive())\<close> and \<open>MGET\<close> for
  \<open>redis.ByteSlices(conn.Do("MGET", keys...))\<close>, where a nil entry is \<open>None\<close>.
  \<open>Error_text\<close> is the \<open>Error()\<close> method of error values and \<open>casSha\<close> the
  package variable set by \<open>NewCacher\<close>.
\<close>

record 'c redis =
  Send :: "'c \<Rightarrow> string \<Rightarrow> arg list \<Rightarrow> error option \<times> 'c"
  Flush :: "'c \<Rightarrow> error option \<times> 'c"
  Receive :: "'c \<Rightarrow> error option \<times> 'c"
  Receive_Int64 :: "'c \<Rightarrow> (64 word \<times> error option) \<times> 'c"
  MGET :: "'c \<Rightarrow> string list \<Rightarrow> error + byte list option list"
  Error_text :: "error \<Rightarrow> string"
  casSha :: string

subsection \<open>One batch: the queuing goroutine and the draining loop\<close>

text \<open>
  \<open>set\<close>, \<open>CompareAndSwapMulti\<close> and \<open>DeleteMulti\<close> have one shape. A goroutine
  started with \<open>go\<close> queues one command per item, writing \<open>me[i]\<close> where queuing
  failed, and then flushes, writing \<open>flushErr\<close>. The calling goroutine meanwhile runs
  the loop over \<open>i\<close> that reads \<open>flushErr\<close> and \<open>me[i]\<close> and receives a reply, and
  then returns. Nothing in the source orders the two, so the state they share is explicit
  here: the connection, \<open>me\<close>, \<open>flushErr\<close>, \<open>hasErr\<close>, and how far the goroutine
  has come (\<open>queued\<close>: the number of items handled, and one more once it has
  flushed). \<open>sent\<close> and \<open>received\<close> record, per slot, the commands given to \<open>Send\<close>
  and the errors \<open>Receive\<close> returned.
\<close>

record 'c batch =
  conn :: 'c
  me :: "error option list"
  flushErr :: "error option"
  hasErr :: bool
  queued :: nat
  sent :: "(nat \<times> string \<times> arg list) list"
  received :: "(nat \<times> error option) list"

text \<open>
  One step of the goroutine over \<open>n\<close> items: the loop body for the next item (\<open>q i c\<close>
  gives the command sent if any, the error to store in \<open>me[i]\<close> if any, and the
  connection afterwards), or the flush when all items are done, or nothing when the
  goroutine has ended.
\<close>

definition goroutine_step ::
  "'c redis \<Rightarrow> (nat \<Rightarrow> 'c \<Rightarrow> (string \<times> arg list) option \<times> error option \<times> 'c) \<Rightarrow> nat
    \<Rightarrow> 'c batch \<Rightarrow> 'c batch" where
  "goroutine_step R q n st =
     (if queued st < n then
        (case q (queued st) (conn st) of
           (cmd, e, c') \<Rightarrow>
             st\<lparr>conn := c',
                me := (case e of None \<Rightarrow> me st | Some x \<Rightarrow> (me st)[queued st := Some x]),
                queued := Suc (queued st),
                sent := (case cmd of None \<Rightarrow> sent st
                         | Some (name, args) \<Rightarrow> sent st @ [(queued st, name, args)])\<rparr>)
      else if queued st = n then
        (case Flush R (conn st) of
           (fe, c') \<Rightarrow> st\<lparr>conn := c', flushErr := fe, queued := Suc n\<rparr>)
      else st)"

text \<open>
  A schedule says how the two goroutines interleave. Its head \<open>(a, b)\<close> belongs to the
  caller's next action: the queuing goroutine takes \<open>a\<close> steps just before the caller
  reads \<open>flushErr\<close> and \<open>me[i]\<close> (in an iteration of the draining loop, or in the
  final checks), and \<open>b\<close> steps while the caller waits in \<open>Receive\<close>, if the
  iteration receives. An exhausted schedule lets it take none. The steps are coarser than
  the machine's: a step of the goroutine is a whole loop body, and the caller's two reads
  are one action, as are \<open>Receive\<close>'s return and the writes that follow it. So every
  run of the model is a run of the program, and the program has more.
\<close>

definition ahead :: "(nat \<times> nat) list \<Rightarrow> nat" where
  "ahead sched = (case sched of [] \<Rightarrow> 0 | (a, b) # _ \<Rightarrow> a)"

definition meanwhile :: "(nat \<times> nat) list \<Rightarrow> nat" where
  "meanwhile sched = (case sched of [] \<Rightarrow> 0 | (a, b) # _ \<Rightarrow> b)"

text \<open>
  The draining loop over the slots \<open>is\<close>. \<open>rcv c\<close> receives one reply: it gives the
  error \<open>Receive\<close> returned, the error to store in \<open>me[i]\<close> if any, and the connection
  afterwards.
\<close>

fun drain ::
  "('c batch \<Rightarrow> 'c batch) \<Rightarrow> ('c \<Rightarrow> error option \<times> error option \<times> 'c) \<Rightarrow> (nat \<times> nat) list
    \<Rightarrow> nat list \<Rightarrow> 'c batch \<Rightarrow> (nat \<times> nat) list \<times> 'c batch" where
  "drain g rcv sched [] st = (sched, st)"
| "drain g rcv sched (i # is) st =
     (let st1 = (g ^^ ahead sched) st in
      if flushErr st1 \<noteq> None then (tl sched, st1)
      else if me st1 ! i \<noteq> None then drain g rcv (tl sched) is (st1\<lparr>hasErr := True\<rparr>)
      else (let st2 = (g ^^ meanwhile sched) st1 in
            case rcv (conn st2) of
              (raw, e, c') \<Rightarrow>
                drain g rcv (tl sched) is
                  (st2\<lparr>conn := c',
                       me := (case e of None \<Rightarrow> me st2 | Some x \<Rightarrow> (me st2)[i := Some x]),
                       hasErr := (hasErr st2 \<or> e \<noteq> None),
                       received := received st2 @ [(i, raw)]\<rparr>)))"

text \<open>
  The shared state when the call begins: \<open>me\<close> has one nil entry per item, and the
  goroutine has not run yet.
\<close>

definition start :: "nat \<Rightarrow> 'c \<Rightarrow> 'c batch" where
  "start n c =
     \<lparr>conn = c, me = replicate n None, flushErr = None, hasErr = False,
      queued = 0, sent = [], received = []\<rparr>"

text \<open>
  The whole batch on a connection \<open>c\<close>: the value the call returns, and the shared
  state once the goroutine has ended too (it may end after the call has returned). The
  MultiError returned is the slice \<open>me\<close> itself; the value here is what it holds at
  the return. The buffer pool changes no value and is left out.
\<close>

definition pipelined ::
  "'c redis \<Rightarrow> (nat \<Rightarrow> 'c \<Rightarrow> (string \<times> arg list) option \<times> error option \<times> 'c)
    \<Rightarrow> ('c \<Rightarrow> error option \<times> error option \<times> 'c) \<Rightarrow> nat \<Rightarrow> (nat \<times> nat) list \<Rightarrow> 'c
    \<Rightarrow> error option \<times> 'c batch" where
  "pipelined R q rcv n sched c =
     (case drain (goroutine_step R q n) rcv sched [0..<n] (start n c) of
        (sched', st) \<Rightarrow>
          (let st' = (goroutine_step R q n ^^ ahead sched') st in
           (if flushErr st' \<noteq> None then flushErr st'
            else if hasErr st' then Some (MultiError (me st'))
            else None,
            (goroutine_step R q n ^^ Suc n) st')))"

text \<open>
  The schedule in which the goroutine has queued everything and flushed before the
  caller's first action.
\<close>

definition joined :: "nat \<Rightarrow> (nat \<times> nat) list" where
  "joined n = [(Suc n, 0)]"

subsection \<open>set, AddMulti, SetMulti\<close>

text \<open>
  The goroutine's loop body in \<open>set\<close> (lines 86 to 103) and the caller's handling of
  one reply (lines 120 to 127). The function \<open>set\<close> itself is \<open>set_items\<close> here.
\<close>

definition queue_set ::
  "'c redis \<Rightarrow> bool \<Rightarrow> Item \<Rightarrow> 'c \<Rightarrow> (string \<times> arg list) option \<times> error option \<times> 'c" where
  "queue_set R nx item c =
     (let args = [StringArg (Key item), BytesArg (encode_payload (Flags item) (Value item))];
          args = (if nx then args @ [StringArg ''NX''] else args);
          args = (if Expiration item \<noteq> 0
                  then args @ [StringArg ''PX'',
                               Int64Arg (int64_quo (Truncate (Expiration item) Millisecond)
                                                   Millisecond)]
                  else args)
      in case Send R c ''SET'' args of (err, c') \<Rightarrow> (Some (''SET'', args), err, c'))"

definition receive_set :: "'c redis \<Rightarrow> bool \<Rightarrow> 'c \<Rightarrow> error option \<times> error option \<times> 'c" where
  "receive_set R nx c =
     (case Receive R c of
        (None, c') \<Rightarrow> (None, None, c')
      | (Some err, c') \<Rightarrow>
          (Some err, Some (if nx \<and> err = ErrNil then ErrNotStored else err), c'))"

definition set_items ::
  "'c redis \<Rightarrow> bool \<Rightarrow> Item list \<Rightarrow> (nat \<times> nat) list \<Rightarrow> 'c \<Rightarrow> error option \<times> 'c batch" where
  "set_items R nx items sched c =
     pipelined R (\<lambda>i. queue_set R nx (items ! i)) (receive_set R nx) (length items) sched c"

text \<open>
  \<open>b.store.GetContext(ctx)\<close> gives an error (\<open>Inl\<close>) or a connection (\<open>Inr\<close>).
\<close>

definition AddMulti ::
  "'c redis \<Rightarrow> error + 'c \<Rightarrow> Item list \<Rightarrow> (nat \<times> nat) list \<Rightarrow> error option \<times> 'c batch option" where
  "AddMulti R pool items sched =
     (case pool of
        Inl err \<Rightarrow> (Some err, None)
      | Inr redisConn \<Rightarrow>
          (case set_items R True items sched redisConn of (e, st) \<Rightarrow> (e, Some st)))"

definition SetMulti ::
  "'c redis \<Rightarrow> error + 'c \<Rightarrow> Item list \<Rightarrow> (nat \<times> nat) list \<Rightarrow> error option \<times> 'c batch option" where
  "SetMulti R pool items sched =
     (case pool of
        Inl err \<Rightarrow> (Some err, None)
      | Inr redisConn \<Rightarrow>
          (case set_items R False items sched redisConn of (e, st) \<Rightarrow> (e, Some st)))"

subsection \<open>CompareAndSwapMulti and the script\<close>

text \<open>
  The goroutine's loop body in \<open>CompareAndSwapMulti\<close> (lines 154 to 168) and the
  caller's handling of one reply (lines 185 to 194).
\<close>

definition queue_cas ::
  "'c redis \<Rightarrow> Item \<Rightarrow> 'c \<Rightarrow> (string \<times> arg list) option \<times> error option \<times> 'c" where
  "queue_cas R item c =
     (case casInfo item of
        Bytes cas \<Rightarrow>
          (let buf = encode_payload (Flags item) (Value item);
               expire = int64_quo (Truncate (Expiration item) Millisecond) Millisecond;
               expire = (if Expiration item = 0 then - 1 else expire);
               args = [StringArg (casSha R), StringArg ''1'', StringArg (Key item),
                       BytesArg cas, BytesArg buf, Int64Arg expire]
           in case Send R c ''EVALSHA'' args of
                (err, c') \<Rightarrow> (Some (''EVALSHA'', args), err, c'))
      | _ \<Rightarrow> (None, Some ErrNotStored, c))"

definition receive_cas :: "'c redis \<Rightarrow> 'c \<Rightarrow> error option \<times> error option \<times> 'c" where
  "receive_cas R c =
     (case Receive R c of
        (None, c') \<Rightarrow> (None, None, c')
      | (Some err, c') \<Rightarrow>
          (Some err,
           Some (if err = ErrNil then ErrNotStored
                 else if Error_text R err = ''cas conflict'' then ErrCASConflict
                 else err),
           c'))"

definition CompareAndSwapMulti ::
  "'c redis \<Rightarrow> error + 'c \<Rightarrow> Item list \<Rightarrow> (nat \<times> nat) list \<Rightarrow> error option \<times> 'c batch option" where
  "CompareAndSwapMulti R pool items sched =
     (case pool of
        Inl err \<Rightarrow> (Some err, None)
      | Inr redisConn \<Rightarrow>
          (case pipelined R (\<lambda>i. queue_cas R (items ! i)) (receive_cas R) (length items)
                  sched redisConn of
             (e, st) \<Rightarrow> (e, Some st)))"






subsection \<open>DeleteMulti of the backend\<close>

text \<open>
  The goroutine's loop body in the backend's \<open>DeleteMulti\<close> (lines 219 to 221) and the
  caller's handling of one reply (lines 235 to 241). The method is \<open>backend_DeleteMulti\<close>
  here, to keep it apart from the coordinator's \<open>DeleteMulti\<close>.
\<close>

definition queue_del ::
  "'c redis \<Rightarrow> string \<Rightarrow> 'c \<Rightarrow> (string \<times> arg list) option \<times> error option \<times> 'c" where
  "queue_del R key c =
     (case Send R c ''DEL'' [StringArg key] of
        (err, c') \<Rightarrow> (Some (''DEL'', [StringArg key]), err, c'))"

definition receive_del :: "'c redis \<Rightarrow> 'c \<Rightarrow> error option \<times> error option \<times> 'c" where
  "receive_del R c =
     (case Receive_Int64 R c of
        ((n, Some err), c') \<Rightarrow> (Some err, Some err, c')
      | ((n, None), c') \<Rightarrow> (None, if n \<noteq> 1 then Some ErrCacheMiss else None, c'))"

definition backend_DeleteMulti ::
  "'c redis \<Rightarrow> error + 'c \<Rightarrow> string list \<Rightarrow> (nat \<times> nat) list \<Rightarrow> error option \<times> 'c batch option" where
  "backend_DeleteMulti R pool keys sched =
     (case pool of
        Inl err \<Rightarrow> (Some err, None)
      | Inr redisConn \<Rightarrow>
          (case pipelined R (\<lambda>i. queue_del R (keys ! i)) (receive_del R) (length keys)
                  sched redisConn of
             (e, st) \<Rightarrow> (e, Some st)))"

subsection \<open>GetMulti\<close>

text \<open>
  The loop of lines 280 to 304 over the slots \<open>(i, key, cachedItems[i])\<close>, on the
  result map, \<open>me\<close> and \<open>hasErr\<close> (primed here, the plain names being fields of
  the batch state).
\<close>

fun GetMulti_loop ::
  "(nat \<times> string \<times> byte list option) list
    \<Rightarrow> (string \<rightharpoonup> Item) \<times> error option list \<times> bool
    \<Rightarrow> (string \<rightharpoonup> Item) \<times> error option list \<times> bool" where
  "GetMulti_loop [] acc = acc"
| "GetMulti_loop ((i, key, None) # slots) acc = GetMulti_loop slots acc"
| "GetMulti_loop ((i, key, Some cacheItem) # slots) (result, me', hasErr') =
     (if length cacheItem < 4
      then GetMulti_loop slots
             (result,
              me'[i := Some (Errorf ''redis: cached item should be atleast 4 bytes, got %d''
                              [length cacheItem])],
              True)
      else (case binary_Read cacheItem of
              Inl err \<Rightarrow> GetMulti_loop slots (result, me'[i := Some err], True)
            | Inr (flags, rest) \<Rightarrow>
                GetMulti_loop slots
                  (result(key \<mapsto> \<lparr>Key = key, Flags = flags, Value = rest, Expiration = 0,
                                    casInfo = Bytes cacheItem\<rparr>),
                   me', hasErr')))"

definition GetMulti ::
  "'c redis \<Rightarrow> error + 'c \<Rightarrow> string list \<Rightarrow> (string \<rightharpoonup> Item) option \<times> error option" where
  "GetMulti R pool keys =
     (if length keys = 0 then (None, None)
      else case pool of
        Inl err \<Rightarrow> (None, Some err)
      | Inr redisConn \<Rightarrow>
          (case MGET R redisConn keys of
             Inl err \<Rightarrow> (None, Some err)
           | Inr cachedItems \<Rightarrow>
               if length cachedItems \<noteq> length keys
               then (None, Some (Errorf ''redis: len(cachedItems) != len(keys) (%d != %d)''
                                   [length cachedItems, length keys]))
               else (case GetMulti_loop (zip [0..<length keys] (zip keys cachedItems))
                            (Map.empty, replicate (length keys) None, False) of
                       (result, me', hasErr') \<Rightarrow>
                         if hasErr' then (Some result, Some (MultiError me'))
                         else (Some result, None))))"


subsection \<open>Describing what GetMulti returns\<close>

text \<open>
  The item \<open>GetMulti\<close> builds from a stored payload \<open>p\<close> of at least four bytes: the
  flags are the little-endian number in the first four bytes, the value is the rest, and
  the CAS token is the whole payload.
\<close>

definition decode_item :: "string \<Rightarrow> byte list \<Rightarrow> Item" where
  "decode_item key p =
     \<lparr>Key = key, Flags = Uint32 (take 4 p), Value = drop 4 p, Expiration = 0,
      casInfo = Bytes p\<rparr>"

text \<open>The entry of \<open>me\<close> for a slot of the \<open>MGET\<close> reply.\<close>

definition slot_error :: "byte list option \<Rightarrow> error option" where
  "slot_error c =
     (case c of
        None \<Rightarrow> None
      | Some p \<Rightarrow>
          if length p < 4
          then Some (Errorf ''redis: cached item should be atleast 4 bytes, got %d'' [length p])
          else None)"

text \<open>The keys with a payload of at least four bytes, each with its item, in batch order.\<close>

fun decoded_entries :: "string list \<Rightarrow> byte list option list \<Rightarrow> (string \<times> Item) list" where
  "decoded_entries (k # ks) (Some p # cs) =
     (if 4 \<le> length p then (k, decode_item k p) # decoded_entries ks cs
      else decoded_entries ks cs)"
| "decoded_entries (k # ks) (None # cs) = decoded_entries ks cs"
| "decoded_entries _ _ = []"

subsection \<open>A connection to evaluate on\<close>

text \<open>
  A small stand-in for a connection and its server. \<open>Send\<close> fails for the sends whose
  number is in \<open>send_fails\<close> and otherwise counts one more unflushed command;
  \<open>Flush\<close> fails when the connection is \<open>broken\<close> and otherwise makes the server's
  next replies ready, one per unflushed command; \<open>Receive\<close> takes the next ready reply,
  and times out when none is ready. \<open>stored\<close> is what the server holds for \<open>MGET\<close>.
\<close>

record fake_conn =
  unflushed :: nat
  server :: "error option list"
  ready :: "error option list"
  int_values :: "64 word list"
  send_fails :: "nat list"
  sends :: nat
  broken :: bool
  stored :: "string \<Rightarrow> byte list option"

definition fake_Receive :: "fake_conn \<Rightarrow> error option \<times> fake_conn" where
  "fake_Receive c =
     (case ready c of
        [] \<Rightarrow> (Some (Error ''i/o timeout''), c)
      | e # es \<Rightarrow> (e, c\<lparr>ready := es\<rparr>))"

definition fake :: "fake_conn redis" where
  "fake =
     \<lparr>Send = (\<lambda>c name args.
               if sends c \<in> set (send_fails c)
               then (Some (Error ''send failed''), c\<lparr>sends := Suc (sends c)\<rparr>)
               else (None, c\<lparr>sends := Suc (sends c), unflushed := Suc (unflushed c)\<rparr>)),
      Flush = (\<lambda>c.
               if broken c then (Some (Error ''broken pipe''), c)
               else (None, c\<lparr>unflushed := 0,
                               server := drop (unflushed c) (server c),
                               ready := ready c @ take (unflushed c) (server c)\<rparr>)),
      Receive = fake_Receive,
      Receive_Int64 = (\<lambda>c.
               case fake_Receive c of
                 (Some e, c') \<Rightarrow> ((0, Some e), c')
               | (None, c') \<Rightarrow>
                   (case int_values c' of
                      [] \<Rightarrow> ((0, Some ErrNil), c')
                    | n # ns \<Rightarrow> ((n, None), c'\<lparr>int_values := ns\<rparr>))),
      MGET = (\<lambda>c keys. if broken c then Inl (Error ''broken pipe'') else Inr (map (stored c) keys)),
      Error_text = (\<lambda>e. case e of Error s \<Rightarrow> s | _ \<Rightarrow> ''another error''),
      casSha = ''sha1''\<rparr>"

definition fresh_conn :: fake_conn where
  "fresh_conn =
     \<lparr>unflushed = 0, server = [], ready = [], int_values = [], send_fails = [], sends = 0,
      broken = False, stored = (\<lambda>k. None)\<rparr>"

definition demo_conn :: fake_conn where
  "demo_conn =
     fresh_conn\<lparr>stored := [''a'' \<mapsto> [7, 0, 0, 0, 120], ''b'' \<mapsto> [1, 2]]\<rparr>"

text \<open>An item that carries no CAS token.\<close>

definition no_token :: Item where
  "no_token =
     \<lparr>Key = ''k'', Flags = 7, Value = [120], Expiration = 0, casInfo = NilInterface\<rparr>"

subsection \<open>Describing the expiration argument\<close>


subsection \<open>GetMulti on a store of byte arrays\<close>

text \<open>
  A Go slice is a view of a backing array: the array's address, an offset and a length.
  The store maps addresses to arrays; \<open>next_free\<close> is the first address not yet
  allocated.
\<close>

record slice =
  base :: nat
  off :: nat
  len :: nat

record store =
  arrays :: "nat \<Rightarrow> byte list"
  next_free :: nat

definition read_slice :: "store \<Rightarrow> slice \<Rightarrow> byte list" where
  "read_slice h s = take (len s) (drop (off s) (arrays h (base s)))"

text \<open>\<open>s[j] = b\<close>: a write through a slice, inside its length.\<close>

definition write_slice :: "store \<Rightarrow> slice \<Rightarrow> nat \<Rightarrow> byte \<Rightarrow> store" where
  "write_slice h s j b =
     (if j < len s
      then h\<lparr>arrays := (arrays h)(base s := (arrays h (base s))[off s + j := b])\<rparr>
      else h)"

text \<open>A new array holding \<open>bs\<close>, as \<open>append([]byte(nil), bs...)\<close> makes one.\<close>

definition new_array :: "store \<Rightarrow> byte list \<Rightarrow> slice \<times> store" where
  "new_array h bs =
     (\<lparr>base = next_free h, off = 0, len = length bs\<rparr>,
      h\<lparr>arrays := (arrays h)(next_free h := bs), next_free := Suc (next_free h)\<rparr>)"

text \<open>
  The reply of \<open>MGET\<close> as the client library hands it over: every bulk string in an
  array of its own.
\<close>

fun receive_bulks :: "store \<Rightarrow> byte list option list \<Rightarrow> slice option list \<times> store" where
  "receive_bulks h [] = ([], h)"
| "receive_bulks h (None # vs) =
     (case receive_bulks h vs of (ss, h') \<Rightarrow> (None # ss, h'))"
| "receive_bulks h (Some v # vs) =
     (case new_array h v of
        (s, h1) \<Rightarrow> (case receive_bulks h1 vs of (ss, h') \<Rightarrow> (Some s # ss, h')))"

text \<open>An item whose \<open>Value\<close> and CAS token are slices.\<close>

record ItemRef =
  Key_ref :: string
  Flags_ref :: uint32
  Value_ref :: slice
  Expiration_ref :: Duration
  casInfo_ref :: slice

text \<open>
  The loop of \<open>GetMulti\<close> again, on slices: \<open>bytes.NewBuffer(cacheItem)\<close> reads from
  \<open>cacheItem\<close>'s own array, so \<open>buf.Bytes()\<close> after the four bytes of the flags is
  the same array from offset four on; \<open>append([]byte(nil), cacheItem...)\<close> is a new
  array.
\<close>

fun GetMulti_loop_refs ::
  "(nat \<times> string \<times> slice option) list
    \<Rightarrow> (string \<rightharpoonup> ItemRef) \<times> error option list \<times> bool \<times> store
    \<Rightarrow> (string \<rightharpoonup> ItemRef) \<times> error option list \<times> bool \<times> store" where
  "GetMulti_loop_refs [] acc = acc"
| "GetMulti_loop_refs ((i, key, None) # slots) acc = GetMulti_loop_refs slots acc"
| "GetMulti_loop_refs ((i, key, Some cacheItem) # slots) (result, me', hasErr', h) =
     (if len cacheItem < 4
      then GetMulti_loop_refs slots
             (result,
              me'[i := Some (Errorf ''redis: cached item should be atleast 4 bytes, got %d''
                              [len cacheItem])],
              True, h)
      else (case binary_Read (read_slice h cacheItem) of
              Inl err \<Rightarrow> GetMulti_loop_refs slots (result, me'[i := Some err], True, h)
            | Inr (flags, rest) \<Rightarrow>
                (case new_array h (read_slice h cacheItem) of
                   (cas, h') \<Rightarrow>
                     GetMulti_loop_refs slots
                       (result(key \<mapsto>
                          \<lparr>Key_ref = key, Flags_ref = flags,
                           Value_ref = cacheItem\<lparr>off := off cacheItem + 4,
                                                  len := len cacheItem - 4\<rparr>,
                           Expiration_ref = 0, casInfo_ref = cas\<rparr>),
                        me', hasErr', h'))))"

definition GetMulti_refs ::
  "'c redis \<Rightarrow> error + 'c \<Rightarrow> string list \<Rightarrow> store
    \<Rightarrow> ((string \<rightharpoonup> ItemRef) option \<times> error option) \<times> store" where
  "GetMulti_refs R pool keys h =
     (if length keys = 0 then ((None, None), h)
      else case pool of
        Inl err \<Rightarrow> ((None, Some err), h)
      | Inr redisConn \<Rightarrow>
          (case MGET R redisConn keys of
             Inl err \<Rightarrow> ((None, Some err), h)
           | Inr reply \<Rightarrow>
               (case receive_bulks h reply of
                  (cachedItems, h1) \<Rightarrow>
                    if length cachedItems \<noteq> length keys
                    then ((None, Some (Errorf ''redis: len(cachedItems) != len(keys) (%d != %d)''
                                         [length cachedItems, length keys])), h1)
                    else (case GetMulti_loop_refs (zip [0..<length keys] (zip keys cachedItems))
                                 (Map.empty, replicate (length keys) None, False, h1) of
                            (result, me', hasErr', h') \<Rightarrow>
                              if hasErr' then ((Some result, Some (MultiError me')), h')
                              else ((Some result, None), h')))))"

text \<open>The item a reference stands for in a store.\<close>

definition item_of :: "store \<Rightarrow> ItemRef \<Rightarrow> Item" where
  "item_of h r =
     \<lparr>Key = Key_ref r, Flags = Flags_ref r, Value = read_slice h (Value_ref r),
      Expiration = Expiration_ref r, casInfo = Bytes (read_slice h (casInfo_ref r))\<rparr>"

text \<open>A store with nothing allocated.\<close>

definition empty_store :: store where
  "empty_store = \<lparr>arrays = (\<lambda>a. []), next_free = 0\<rparr>"

text \<open>
  References are in order in a store when every \<open>Value\<close> lies in an array that
  existed before address \<open>n0\<close> and every token lies in an array allocated from
  \<open>n0\<close> on.
\<close>

definition refs_ok :: "nat \<Rightarrow> store \<Rightarrow> (string \<rightharpoonup> ItemRef) \<Rightarrow> bool" where
  "refs_ok n0 h result \<longleftrightarrow>
     n0 \<le> next_free h \<and>
     (\<forall>k it. result k = Some it \<longrightarrow>
        base (Value_ref it) < n0 \<and> n0 \<le> base (casInfo_ref it) \<and>
        base (casInfo_ref it) < next_free h)"

text \<open>The batch of the earlier evaluation, against an empty store.\<close>

definition demo_refs :: "((string \<rightharpoonup> ItemRef) option \<times> error option) \<times> store" where
  "demo_refs = GetMulti_refs fake (Inr demo_conn) [''a'', ''b'', ''c''] empty_store"

section \<open>Properties of the delete coordinator\<close>

lemma lock_items_complete:
  "\<forall>k \<in> set keys. \<not> Incomplete E k \<Longrightarrow>
   lock_items E keys acc r =
     (Inr (acc @ map2 (lock_marker E) keys (fst (draws (rand_Uint32 E) (length keys) r))),
      snd (draws (rand_Uint32 E) (length keys) r))"
proof (induction keys arbitrary: acc r)
  case Nil
  then show ?case by simp
next
  case (Cons k keys)
  obtain f r' where g: "rand_Uint32 E r = (f, r')" by (cases "rand_Uint32 E r")
  obtain fs r'' where d: "draws (rand_Uint32 E) (length keys) r' = (fs, r'')"
    by (cases "draws (rand_Uint32 E) (length keys) r'")
  from Cons.prems have nk: "\<not> Incomplete E k" and rest: "\<forall>k \<in> set keys. \<not> Incomplete E k"
    by simp_all
  show ?case
    using Cons.IH [OF rest, of "acc @ [lock_marker E k f]" r'] nk g d
    by (simp add: lock_marker_def)
qed

lemma lock_items_incomplete:
  "\<exists>k \<in> set keys. Incomplete E k \<Longrightarrow> fst (lock_items E keys acc r) = Inl ErrInvalidKey"
proof (induction keys arbitrary: acc r)
  case Nil
  then show ?case by simp
next
  case (Cons k keys)
  show ?case
  proof (cases "Incomplete E k")
    case True
    then show ?thesis by simp
  next
    case False
    with Cons.prems have "\<exists>k \<in> set keys. Incomplete E k" by simp
    from Cons.IH [OF this] False show ?thesis
      by (simp split: prod.splits)
  qed
qed

lemma length_draws: "length (fst (draws g n r)) = n"
proof (induction n arbitrary: r)
  case 0
  then show ?case by simp
next
  case (Suc n)
  obtain f r' where g: "g r = (f, r')" by (cases "g r")
  obtain fs r'' where d: "draws g n r' = (fs, r'')" by (cases "draws g n r'")
  from Suc [of r'] d have "length fs = n" by simp
  with g d show ?case by simp
qed


text \<open>
  What \<open>deleteMulti\<close> does on a batch without incomplete keys, in one equation: the
  items are the lock markers of the keys with successive draws as tokens, the cache is
  asked first, and the store only after the cache reported no error.
\<close>

lemma deleteMulti_complete:
  assumes "\<forall>k \<in> set keys. \<not> Incomplete E k"
  shows "deleteMulti E cc keys s =
          (case call_SetMulti E cc
                  (lock_markers E keys (rng s))
                  (s\<lparr>rng := snd (draws (rand_Uint32 E) (length keys) (rng s))\<rparr>) of
             (Some err, s') \<Rightarrow> (Some err, s')
           | (None, s') \<Rightarrow> call_DeleteMulti E cc keys s')"
  using lock_items_complete [OF assms, of "[]" "rng s"]
  by (simp add: deleteMulti_def lock_markers_def)

lemma deleteMulti_incomplete:
  assumes "\<exists>k \<in> set keys. Incomplete E k"
  shows "\<exists>r'. deleteMulti E cc keys s = (Some ErrInvalidKey, s\<lparr>rng := r'\<rparr>)"
proof -
  obtain x r' where l: "lock_items E keys [] (rng s) = (x, r')"
    by (cases "lock_items E keys [] (rng s)")
  with lock_items_incomplete [OF assms, of "[]" "rng s"] have "x = Inl ErrInvalidKey"
    by simp
  with l show ?thesis by (auto simp add: deleteMulti_def)
qed

text \<open>
  C1. For a batch in which every key is complete, \<open>deleteMulti\<close> first calls the cache's
  SetMulti with one lock marker per key. The store's DeleteMulti is called exactly when
  that SetMulti returned no error: then it is the second and last call, and its result is
  the coordinator's result. When SetMulti returned an error, that error is the
  coordinator's result and the SetMulti call is the only call made.
\<close>

theorem deleteMulti_locks_before_delete:
  assumes "\<forall>k \<in> set keys. \<not> Incomplete E k"
  shows "length (lock_markers E keys (rng s)) = length keys \<and>
         (case memcache_SetMulti E (world s) cc (lock_markers E keys (rng s)) of
            (Some err, w1) \<Rightarrow>
               fst (deleteMulti E cc keys s) = Some err \<and>
               calls (snd (deleteMulti E cc keys s))
                 = calls s @ [CacheSetMulti cc (lock_markers E keys (rng s))] \<and>
               world (snd (deleteMulti E cc keys s)) = w1
          | (None, w1) \<Rightarrow>
               fst (deleteMulti E cc keys s) = fst (datastore_DeleteMulti E w1 cc keys) \<and>
               calls (snd (deleteMulti E cc keys s))
                 = calls s @ [CacheSetMulti cc (lock_markers E keys (rng s)),
                              StoreDeleteMulti cc keys] \<and>
               world (snd (deleteMulti E cc keys s)) = snd (datastore_DeleteMulti E w1 cc keys))"
proof
  show "length (lock_markers E keys (rng s)) = length keys"
    by (simp add: lock_markers_def length_draws)
  show "case memcache_SetMulti E (world s) cc (lock_markers E keys (rng s)) of
            (Some err, w1) \<Rightarrow>
               fst (deleteMulti E cc keys s) = Some err \<and>
               calls (snd (deleteMulti E cc keys s))
                 = calls s @ [CacheSetMulti cc (lock_markers E keys (rng s))] \<and>
               world (snd (deleteMulti E cc keys s)) = w1
          | (None, w1) \<Rightarrow>
               fst (deleteMulti E cc keys s) = fst (datastore_DeleteMulti E w1 cc keys) \<and>
               calls (snd (deleteMulti E cc keys s))
                 = calls s @ [CacheSetMulti cc (lock_markers E keys (rng s)),
                              StoreDeleteMulti cc keys] \<and>
               world (snd (deleteMulti E cc keys s)) = snd (datastore_DeleteMulti E w1 cc keys)"
    by (simp add: deleteMulti_complete [OF assms] call_SetMulti_def call_DeleteMulti_def
          split: prod.splits option.splits)
qed

lemma demo_markers_ok:
  "lock_markers demo_env [5, 99] 0 =
     [\<lparr>Key = ''NDS:key'', Flags = 5, Value = [1, 2, 3], Expiration = 32000000000\<rparr>,
      \<lparr>Key = ''NDS:key'', Flags = 12, Value = [1, 2, 3], Expiration = 32000000000\<rparr>]"
  by (simp add: lock_markers_def lock_marker_def demo_env_def numeral_2_eq_2)

lemma demo_markers_bad:
  "lock_markers demo_env [5, -1] 0 =
     [\<lparr>Key = ''NDS:key'', Flags = 5, Value = [1, 2, 3], Expiration = 32000000000\<rparr>,
      \<lparr>Key = ''bad'', Flags = 12, Value = [1, 2, 3], Expiration = 32000000000\<rparr>]"
  by (simp add: lock_markers_def lock_marker_def demo_env_def numeral_2_eq_2)

theorem deleteMulti_locks_before_delete_witness:
  "fst (deleteMulti demo_env (NdsContext 7) [5, 99] demo_state)
     = Some (MultiError [Some (Error ''gone'')]) \<and>
   calls (snd (deleteMulti demo_env (NdsContext 7) [5, 99] demo_state))
     = [CacheSetMulti (NdsContext 7) (lock_markers demo_env [5, 99] 0),
        StoreDeleteMulti (NdsContext 7) [5, 99]] \<and>
   fst (deleteMulti demo_env (NdsContext 7) [5, -1] demo_state) = Some (Error ''cache down'') \<and>
   calls (snd (deleteMulti demo_env (NdsContext 7) [5, -1] demo_state))
     = [CacheSetMulti (NdsContext 7) (lock_markers demo_env [5, -1] 0)]"
proof -
  have c1: "\<forall>k \<in> set [5, 99 :: int]. \<not> Incomplete demo_env k"
    by (simp add: demo_env_def)
  have c2: "\<forall>k \<in> set [5, -1 :: int]. \<not> Incomplete demo_env k"
    by (simp add: demo_env_def)
  have s1: "memcache_SetMulti demo_env 0 (NdsContext 7) (lock_markers demo_env [5, 99] 0)
              = (None, Suc 0)"
    by (simp add: demo_markers_ok) (simp add: demo_env_def)
  have s2: "memcache_SetMulti demo_env 0 (NdsContext 7) (lock_markers demo_env [5, -1] 0)
              = (Some (Error ''cache down''), Suc 0)"
    by (simp add: demo_markers_bad) (simp add: demo_env_def)
  have d1: "datastore_DeleteMulti demo_env (Suc 0) (NdsContext 7) [5, 99]
              = (Some (MultiError [Some (Error ''gone'')]), 2)"
    by (simp add: demo_env_def)
  have r: "rng demo_state = 0" "world demo_state = 0" "calls demo_state = []"
    by (simp_all add: demo_state_def)
  from deleteMulti_locks_before_delete [OF c1, where s = demo_state and cc = "NdsContext 7"]
  have a: "fst (deleteMulti demo_env (NdsContext 7) [5, 99] demo_state)
             = Some (MultiError [Some (Error ''gone'')]) \<and>
           calls (snd (deleteMulti demo_env (NdsContext 7) [5, 99] demo_state))
             = [CacheSetMulti (NdsContext 7) (lock_markers demo_env [5, 99] 0),
                StoreDeleteMulti (NdsContext 7) [5, 99]]"
    by (simp add: r s1 d1)
  from deleteMulti_locks_before_delete [OF c2, where s = demo_state and cc = "NdsContext 7"]
  have b: "fst (deleteMulti demo_env (NdsContext 7) [5, -1] demo_state)
             = Some (Error ''cache down'') \<and>
           calls (snd (deleteMulti demo_env (NdsContext 7) [5, -1] demo_state))
             = [CacheSetMulti (NdsContext 7) (lock_markers demo_env [5, -1] 0)]"
    by (simp add: r s2)
  from a b show ?thesis by simp
qed

text \<open>
  C2. For a batch that holds an incomplete key, \<open>deleteMulti\<close> returns
  \<open>ErrInvalidKey\<close> and calls neither the cache's SetMulti nor the store's DeleteMulti:
  the record of calls and the world (cache and store) are what they were. Only the random
  source may have moved on, by the draws made for the complete keys that precede the
  incomplete one.
\<close>

theorem deleteMulti_incomplete_no_calls:
  assumes "\<exists>k \<in> set keys. Incomplete E k"
  shows "fst (deleteMulti E cc keys s) = Some ErrInvalidKey \<and>
         calls (snd (deleteMulti E cc keys s)) = calls s \<and>
         world (snd (deleteMulti E cc keys s)) = world s"
proof -
  from deleteMulti_incomplete [OF assms]
  obtain r' where "deleteMulti E cc keys s = (Some ErrInvalidKey, s\<lparr>rng := r'\<rparr>)"
    by blast
  then show ?thesis by simp
qed

theorem deleteMulti_incomplete_no_calls_witness:
  "fst (deleteMulti demo_env (NdsContext 7) [5, 0] demo_state) = Some ErrInvalidKey \<and>
   calls (snd (deleteMulti demo_env (NdsContext 7) [5, 0] demo_state)) = [] \<and>
   world (snd (deleteMulti demo_env (NdsContext 7) [5, 0] demo_state)) = 0"
proof -
  have i: "\<exists>k \<in> set [5, 0 :: int]. Incomplete demo_env k"
    by (simp add: demo_env_def)
  from deleteMulti_incomplete_no_calls [OF i, where s = demo_state and cc = "NdsContext 7"]
  show ?thesis by (simp add: demo_state_def)
qed

text \<open>
  C7. For a batch in which every key is complete, the items handed to the cache's
  SetMulti are one per key and in the keys' order; the item of key \<open>i\<close> has the cache
  key derived from that key, the fixed payload \<open>memcacheLock\<close>, the fixed duration
  \<open>memcacheLockTime\<close>, and as flags the \<open>i\<close>-th number drawn from the random source
  during the call, which draws exactly one number per key.
\<close>

theorem deleteMulti_lock_marker_fields:
  assumes "\<forall>k \<in> set keys. \<not> Incomplete E k"
  shows "(\<exists>rest. calls (snd (deleteMulti E cc keys s))
                   = calls s @ CacheSetMulti cc (lock_markers E keys (rng s)) # rest) \<and>
         length (lock_markers E keys (rng s)) = length keys \<and>
         (\<forall>i < length keys.
            lock_markers E keys (rng s) ! i =
              \<lparr>Key = createMemcacheKey E (keys ! i),
               Flags = fst (draws (rand_Uint32 E) (length keys) (rng s)) ! i,
               Value = memcacheLock E,
               Expiration = memcacheLockTime E\<rparr>) \<and>
         rng (snd (deleteMulti E cc keys s)) = snd (draws (rand_Uint32 E) (length keys) (rng s))"
proof -
  let ?items = "lock_markers E keys (rng s)"
  let ?s1 = "s\<lparr>rng := snd (draws (rand_Uint32 E) (length keys) (rng s))\<rparr>"
  have len: "length ?items = length keys"
    by (simp add: lock_markers_def length_draws)
  have nth: "\<forall>i < length keys.
            ?items ! i =
              \<lparr>Key = createMemcacheKey E (keys ! i),
               Flags = fst (draws (rand_Uint32 E) (length keys) (rng s)) ! i,
               Value = memcacheLock E,
               Expiration = memcacheLockTime E\<rparr>"
    by (simp add: lock_markers_def lock_marker_def length_draws)
  have cs: "\<exists>rest. calls (snd (deleteMulti E cc keys s)) = calls s @ CacheSetMulti cc ?items # rest"
    by (simp add: deleteMulti_complete [OF assms] call_SetMulti_def call_DeleteMulti_def
          split: prod.splits option.splits)
  have rg: "rng (snd (deleteMulti E cc keys s)) = snd (draws (rand_Uint32 E) (length keys) (rng s))"
    by (simp add: deleteMulti_complete [OF assms] call_SetMulti_def call_DeleteMulti_def
          split: prod.splits option.splits)
  from len nth cs rg show ?thesis by blast
qed

theorem deleteMulti_lock_marker_fields_witness:
  "lock_markers demo_env [5, 99] (rng demo_state) ! 1 =
     \<lparr>Key = ''NDS:key'', Flags = 12, Value = [1, 2, 3], Expiration = 32000000000\<rparr> \<and>
   rng (snd (deleteMulti demo_env (NdsContext 7) [5, 99] demo_state)) = 2"
proof -
  have c: "\<forall>k \<in> set [5, 99 :: int]. \<not> Incomplete demo_env k"
    by (simp add: demo_env_def)
  have m: "lock_markers demo_env [5, 99] (rng demo_state) ! 1 =
             \<lparr>Key = createMemcacheKey demo_env ([5, 99] ! 1),
               Flags = fst (draws (rand_Uint32 demo_env) (length [5, 99 :: int]) (rng demo_state)) ! 1,
               Value = memcacheLock demo_env,
               Expiration = memcacheLockTime demo_env\<rparr>"
    using deleteMulti_lock_marker_fields [OF c, where s = demo_state and cc = "NdsContext 7"]
    by simp
  have g: "rng (snd (deleteMulti demo_env (NdsContext 7) [5, 99] demo_state))
             = snd (draws (rand_Uint32 demo_env) (length [5, 99 :: int]) (rng demo_state))"
    using deleteMulti_lock_marker_fields [OF c, where s = demo_state and cc = "NdsContext 7"]
    by simp
  have r: "rng demo_state = 0" by (simp add: demo_state_def)
  from m g show ?thesis
    by (simp add: r demo_env_def)
qed

text \<open>
  C9. With a context that is not the package's own, \<open>DeleteMulti\<close> hands the keys
  straight to the store's DeleteMulti, with the caller's context: that call is the only
  one made, its result is the result, no key is inspected, and no number is drawn.
\<close>

theorem DeleteMulti_foreign_context:
  "fst (DeleteMulti E (OtherContext n) keys s)
     = fst (datastore_DeleteMulti E (world s) (OtherContext n) keys) \<and>
   calls (snd (DeleteMulti E (OtherContext n) keys s))
     = calls s @ [StoreDeleteMulti (OtherContext n) keys] \<and>
   world (snd (DeleteMulti E (OtherContext n) keys s))
     = snd (datastore_DeleteMulti E (world s) (OtherContext n) keys) \<and>
   rng (snd (DeleteMulti E (OtherContext n) keys s)) = rng s"
  by (simp add: DeleteMulti_def call_DeleteMulti_def split: prod.splits)

theorem DeleteMulti_foreign_context_witness:
  "fst (DeleteMulti demo_env (OtherContext 3) [5, 0] demo_state) = None \<and>
   calls (snd (DeleteMulti demo_env (OtherContext 3) [5, 0] demo_state))
     = [StoreDeleteMulti (OtherContext 3) [5, 0]] \<and>
   rng (snd (DeleteMulti demo_env (OtherContext 3) [5, 0] demo_state)) = 0"
  using DeleteMulti_foreign_context [of demo_env 3 "[5, 0]" demo_state]
  by (simp add: demo_env_def demo_state_def)

section \<open>Properties of the backend\<close>

subsection \<open>The wire payload\<close>

lemma Uint32_PutUint32: "Uint32 (PutUint32 v @ rest) = v"
  unfolding Uint32_def PutUint32_def
  apply simp
  apply (rule bit_word_eqI)
  subgoal for n
    by (cases "n < 8"; cases "n < 16"; cases "n < 24") (auto simp add: bit_simps)
  done

lemma length_PutUint32: "length (PutUint32 v) = 4"
  by (simp add: PutUint32_def)

lemma binary_Read_encode: "binary_Read (encode_payload flags val) = Inr (flags, val)"
proof -
  have t: "take 4 (PutUint32 flags @ val) = PutUint32 flags @ []"
    by (simp add: length_PutUint32)
  have "Uint32 (take 4 (PutUint32 flags @ val)) = flags"
    unfolding t by (rule Uint32_PutUint32)
  then show ?thesis
    by (simp add: binary_Read_def encode_payload_def length_PutUint32)
qed

subsection \<open>GetMulti\<close>

lemma slot_error_simps:
  "slot_error None = None"
  "length p < 4 \<Longrightarrow> slot_error (Some p) =
     Some (Errorf ''redis: cached item should be atleast 4 bytes, got %d'' [length p])"
  "\<not> length p < 4 \<Longrightarrow> slot_error (Some p) = None"
  by (simp_all add: slot_error_def)

lemma GetMulti_loop_enumerate:
  "length ks = length cs \<Longrightarrow> length pre = a \<Longrightarrow>
   GetMulti_loop (List.enumerate a (zip ks cs)) (r, pre @ replicate (length cs) None, h) =
     (r ++ map_of (rev (decoded_entries ks cs)), pre @ map slot_error cs,
      h \<or> (\<exists>c \<in> set cs. slot_error c \<noteq> None))"
proof (induction cs arbitrary: ks a pre r h)
  case Nil
  then show ?case by simp
next
  case (Cons c cs)
  then obtain k ks' where ks: "ks = k # ks'" and len: "length ks' = length cs"
    by (cases ks) auto
  have pre': "length (pre @ [e]) = Suc a" for e :: "error option"
    using Cons.prems by simp
  have upd: "(pre @ replicate (length (c # cs)) None)[a := e] = (pre @ [e]) @ replicate (length cs) None"
    for e :: "error option"
    using Cons.prems by (simp add: list_update_append)
  have same: "pre @ replicate (length (c # cs)) None = (pre @ [None]) @ replicate (length cs) None"
    by (simp add: replicate_app_Cons_same)
  show ?case
  proof (cases c)
    case None
    have "GetMulti_loop (List.enumerate a (zip ks (c # cs))) (r, pre @ replicate (length (c # cs)) None, h)
          = GetMulti_loop (List.enumerate (Suc a) (zip ks' cs)) (r, (pre @ [None]) @ replicate (length cs) None, h)"
      unfolding same by (simp add: ks None)
    also have "\<dots> = (r ++ map_of (rev (decoded_entries ks' cs)), (pre @ [None]) @ map slot_error cs,
                      h \<or> (\<exists>c \<in> set cs. slot_error c \<noteq> None))"
      by (rule Cons.IH [OF len pre'])
    finally show ?thesis
      by (simp add: ks None slot_error_simps)
  next
    case (Some p)
    show ?thesis
    proof (cases "length p < 4")
      case True
      let ?e = "Some (Errorf ''redis: cached item should be atleast 4 bytes, got %d'' [length p])"
      have "GetMulti_loop (List.enumerate a (zip ks (c # cs))) (r, pre @ replicate (length (c # cs)) None, h)
            = GetMulti_loop (List.enumerate (Suc a) (zip ks' cs))
                (r, (pre @ replicate (length (c # cs)) None)[a := ?e], True)"
        using True by (simp add: ks Some del: replicate.simps)
      also have "\<dots> = GetMulti_loop (List.enumerate (Suc a) (zip ks' cs))
                (r, (pre @ [?e]) @ replicate (length cs) None, True)"
        by (simp only: upd)
      also have "\<dots> = (r ++ map_of (rev (decoded_entries ks' cs)), (pre @ [?e]) @ map slot_error cs,
                      True \<or> (\<exists>c \<in> set cs. slot_error c \<noteq> None))"
        by (rule Cons.IH [OF len pre'])
      finally show ?thesis
        using True by (simp add: ks Some slot_error_simps)
    next
      case False
      then have br: "binary_Read p = Inr (Uint32 (take 4 p), drop 4 p)"
        by (auto simp add: binary_Read_def)
      have "GetMulti_loop (List.enumerate a (zip ks (c # cs))) (r, pre @ replicate (length (c # cs)) None, h)
            = GetMulti_loop (List.enumerate (Suc a) (zip ks' cs))
                (r(k \<mapsto> decode_item k p), (pre @ [None]) @ replicate (length cs) None, h)"
        unfolding same using False br by (simp add: ks Some decode_item_def)
      also have "\<dots> = (r(k \<mapsto> decode_item k p) ++ map_of (rev (decoded_entries ks' cs)),
                      (pre @ [None]) @ map slot_error cs,
                      h \<or> (\<exists>c \<in> set cs. slot_error c \<noteq> None))"
        by (rule Cons.IH [OF len pre'])
      finally show ?thesis
        using False by (simp add: ks Some slot_error_simps)
    qed
  qed
qed

lemma GetMulti_decoded:
  assumes "keys \<noteq> []" and "MGET R c keys = Inr cached" and "length cached = length keys"
  shows "GetMulti R (Inr c) keys =
           (Some (map_of (rev (decoded_entries keys cached))),
            if \<exists>x \<in> set cached. slot_error x \<noteq> None
            then Some (MultiError (map slot_error cached)) else None)"
proof -
  have z: "zip [0..<length keys] (zip keys cached) = List.enumerate 0 (zip keys cached)"
    using assms(3) by (simp add: enumerate_eq_zip)
  have l: "GetMulti_loop (List.enumerate 0 (zip keys cached))
             (Map.empty, [] @ replicate (length cached) None, False) =
           (Map.empty ++ map_of (rev (decoded_entries keys cached)), [] @ map slot_error cached,
            False \<or> (\<exists>x \<in> set cached. slot_error x \<noteq> None))"
    by (rule GetMulti_loop_enumerate) (simp_all add: assms(3))
  show ?thesis
    using assms l by (simp add: GetMulti_def z)
qed

lemma decoded_entries_iff:
  "length ks = length cs \<Longrightarrow>
   (k, v) \<in> set (decoded_entries ks cs) \<longleftrightarrow>
     (\<exists>i < length ks. \<exists>p. ks ! i = k \<and> cs ! i = Some p \<and> 4 \<le> length p \<and> v = decode_item k p)"
proof (induction ks cs rule: decoded_entries.induct)
  case (1 k' ks p cs)
  then have IH: "(k, v) \<in> set (decoded_entries ks cs) \<longleftrightarrow>
     (\<exists>i < length ks. \<exists>p. ks ! i = k \<and> cs ! i = Some p \<and> 4 \<le> length p \<and> v = decode_item k p)"
    by (cases "4 \<le> length p") simp_all
  show ?case
    by (auto simp add: IH less_Suc_eq_0_disj)
next
  case (2 k' ks cs)
  then have IH: "(k, v) \<in> set (decoded_entries ks cs) \<longleftrightarrow>
     (\<exists>i < length ks. \<exists>p. ks ! i = k \<and> cs ! i = Some p \<and> 4 \<le> length p \<and> v = decode_item k p)"
    by simp
  show ?case
    by (auto simp add: IH less_Suc_eq_0_disj)
qed simp_all

text \<open>
  C3. The payload that \<open>set\<close> sends for an item is the second argument of its
  \<open>SET\<close> command: the item's flags in four little-endian bytes, then its value. For
  every 32-bit flags value and every byte sequence, of any length, that payload is read
  back by \<open>GetMulti\<close>'s decoding as the same flags and the same value: the payload is
  never shorter than four bytes, \<open>binary.Read\<close> yields the flags and leaves the value,
  and the loop stores an item with exactly these under the key.
\<close>

theorem payload_round_trip:
  "(case fst (queue_set R nx item c) of
      Some (name, args) \<Rightarrow>
        name = ''SET'' \<and>
        take 2 args = [StringArg (Key item), BytesArg (encode_payload (Flags item) (Value item))]
    | None \<Rightarrow> False) \<and>
   binary_Read (encode_payload flags val) = Inr (flags, val) \<and>
   length (encode_payload flags val) = 4 + length val \<and>
   GetMulti_loop [(i, key, Some (encode_payload flags val))] (result, me', hasErr') =
     (result(key \<mapsto> \<lparr>Key = key, Flags = flags, Value = val, Expiration = 0,
                        casInfo = Bytes (encode_payload flags val)\<rparr>),
      me', hasErr')"
proof -
  have q: "case fst (queue_set R nx item c) of
      Some (name, args) \<Rightarrow>
        name = ''SET'' \<and>
        take 2 args = [StringArg (Key item), BytesArg (encode_payload (Flags item) (Value item))]
    | None \<Rightarrow> False"
    by (simp add: queue_set_def Let_def split: prod.splits)
  have r: "binary_Read (encode_payload flags val) = Inr (flags, val)"
    by (rule binary_Read_encode)
  have l: "length (encode_payload flags val) = 4 + length val"
    by (simp add: encode_payload_def length_PutUint32)
  have g: "GetMulti_loop [(i, key, Some (encode_payload flags val))] (result, me', hasErr') =
     (result(key \<mapsto> \<lparr>Key = key, Flags = flags, Value = val, Expiration = 0,
                        casInfo = Bytes (encode_payload flags val)\<rparr>),
      me', hasErr')"
    using r l by simp
  from q r l g show ?thesis by blast
qed

theorem payload_round_trip_witness:
  "fst (queue_set fake False
          \<lparr>Key = ''a'', Flags = 7, Value = [120], Expiration = 0, casInfo = NilInterface\<rparr>
          fresh_conn)
     = Some (''SET'', [StringArg ''a'', BytesArg [7, 0, 0, 0, 120]]) \<and>
   binary_Read [7, 0, 0, 0, 120] = Inr (7, [120]) \<and>
   fst (GetMulti_loop [(0, ''a'', Some [7, 0, 0, 0, 120])] (Map.empty, [None], False)) ''a''
     = Some \<lparr>Key = ''a'', Flags = 7, Value = [120], Expiration = 0,
             casInfo = Bytes [7, 0, 0, 0, 120]\<rparr>"
proof -
  have e: "encode_payload 7 [120] = [7, 0, 0, 0, 120]"
    by (simp add: encode_payload_def PutUint32_def)
  have s: "fst (queue_set fake False
          \<lparr>Key = ''a'', Flags = 7, Value = [120], Expiration = 0, casInfo = NilInterface\<rparr>
          fresh_conn)
     = Some (''SET'', [StringArg ''a'', BytesArg [7, 0, 0, 0, 120]])"
    by (simp add: queue_set_def fake_def fresh_conn_def e)
  from payload_round_trip [where R = fake and nx = False
      and item = "\<lparr>Key = ''a'', Flags = 7, Value = [120], Expiration = 0, casInfo = NilInterface\<rparr>"
      and c = fresh_conn and flags = 7 and val = "[120]" and i = 0 and key = "''a''"
      and result = Map.empty and me' = "[None]" and hasErr' = False] e s
  show ?thesis by simp
qed

text \<open>
  C6. When the connection is obtained and \<open>MGET\<close> answers with one entry per key,
  \<open>GetMulti\<close> returns a map and, exactly when some payload is shorter than four bytes,
  a MultiError of the batch's length. Its entry at a position is the malformed-payload
  error when the payload there is shorter than four bytes, and nil otherwise: so for an
  absent key and for a well-formed payload. Every key with a well-formed payload is in the
  map, with the item decoded from a well-formed payload stored under that key; and the
  map holds nothing else, so a key that is absent (or malformed) at all its positions is
  missing from it.
\<close>

theorem GetMulti_malformed_isolated:
  assumes "keys \<noteq> []" and "MGET R c keys = Inr cached" and "length cached = length keys"
  shows "\<exists>result me'.
           GetMulti R (Inr c) keys =
             (Some result,
              if \<exists>i < length keys. \<exists>p. cached ! i = Some p \<and> length p < 4
              then Some (MultiError me') else None) \<and>
           length me' = length keys \<and>
           (\<forall>i < length keys.
              me' ! i =
                (case cached ! i of
                   None \<Rightarrow> None
                 | Some p \<Rightarrow>
                     if length p < 4
                     then Some (Errorf ''redis: cached item should be atleast 4 bytes, got %d''
                                  [length p])
                     else None)) \<and>
           (\<forall>i < length keys. \<forall>p. cached ! i = Some p \<longrightarrow> 4 \<le> length p \<longrightarrow>
              (\<exists>j < length keys. \<exists>p'.
                 keys ! j = keys ! i \<and> cached ! j = Some p' \<and> 4 \<le> length p' \<and>
                 result (keys ! i) = Some (decode_item (keys ! i) p'))) \<and>
           (\<forall>k item. result k = Some item \<longrightarrow>
              (\<exists>i < length keys. \<exists>p.
                 keys ! i = k \<and> cached ! i = Some p \<and> 4 \<le> length p \<and>
                 item = decode_item k p))"
proof -
  let ?es = "decoded_entries keys cached"
  let ?result = "map_of (rev ?es)"
  let ?me = "map slot_error cached"
  have len: "length keys = length cached" using assms(3) by simp
  have cond: "(\<exists>x \<in> set cached. slot_error x \<noteq> None) \<longleftrightarrow>
              (\<exists>i < length keys. \<exists>p. cached ! i = Some p \<and> length p < 4)"
  proof
    assume "\<exists>x \<in> set cached. slot_error x \<noteq> None"
    then obtain x where x: "x \<in> set cached" "slot_error x \<noteq> None" by blast
    then obtain i where i: "i < length cached" "cached ! i = x"
      by (auto simp add: in_set_conv_nth)
    from x(2) obtain p where "x = Some p" "length p < 4"
      by (auto simp add: slot_error_def split: option.splits if_splits)
    with i len show "\<exists>i < length keys. \<exists>p. cached ! i = Some p \<and> length p < 4"
      by auto
  next
    assume "\<exists>i < length keys. \<exists>p. cached ! i = Some p \<and> length p < 4"
    then obtain i p where i: "i < length keys" "cached ! i = Some p" "length p < 4" by blast
    then have "i < length cached" using len by simp
    then have "cached ! i \<in> set cached" by (rule nth_mem)
    moreover have "slot_error (cached ! i) \<noteq> None" using i by (simp add: slot_error_def)
    ultimately show "\<exists>x \<in> set cached. slot_error x \<noteq> None" by blast
  qed
  have g: "GetMulti R (Inr c) keys =
             (Some ?result,
              if \<exists>i < length keys. \<exists>p. cached ! i = Some p \<and> length p < 4
              then Some (MultiError ?me) else None)"
    using GetMulti_decoded [OF assms] cond by simp
  have l: "length ?me = length keys" using len by simp
  have n: "\<forall>i < length keys.
              ?me ! i =
                (case cached ! i of
                   None \<Rightarrow> None
                 | Some p \<Rightarrow>
                     if length p < 4
                     then Some (Errorf ''redis: cached item should be atleast 4 bytes, got %d''
                                  [length p])
                     else None)"
    using len by (simp add: slot_error_def)
  have inv: "\<forall>k item. ?result k = Some item \<longrightarrow>
              (\<exists>i < length keys. \<exists>p.
                 keys ! i = k \<and> cached ! i = Some p \<and> 4 \<le> length p \<and>
                 item = decode_item k p)"
  proof (intro allI impI)
    fix k item
    assume "?result k = Some item"
    then have "(k, item) \<in> set (rev ?es)" by (rule map_of_SomeD)
    then have "(k, item) \<in> set ?es" by simp
    then show "\<exists>i < length keys. \<exists>p.
                 keys ! i = k \<and> cached ! i = Some p \<and> 4 \<le> length p \<and>
                 item = decode_item k p"
      by (simp add: decoded_entries_iff [OF len])
  qed
  have pres: "\<forall>i < length keys. \<forall>p. cached ! i = Some p \<longrightarrow> 4 \<le> length p \<longrightarrow>
              (\<exists>j < length keys. \<exists>p'.
                 keys ! j = keys ! i \<and> cached ! j = Some p' \<and> 4 \<le> length p' \<and>
                 ?result (keys ! i) = Some (decode_item (keys ! i) p'))"
  proof (intro allI impI)
    fix i p
    assume i: "i < length keys" and p: "cached ! i = Some p" and w: "4 \<le> length p"
    then have "(keys ! i, decode_item (keys ! i) p) \<in> set ?es"
      by (auto simp add: decoded_entries_iff [OF len])
    then have "keys ! i \<in> fst ` set (rev ?es)" by force
    then have "?result (keys ! i) \<noteq> None"
      by (simp add: map_of_eq_None_iff)
    then obtain item where it: "?result (keys ! i) = Some item" by blast
    with inv obtain j p' where "j < length keys" "keys ! j = keys ! i" "cached ! j = Some p'"
        "4 \<le> length p'" "item = decode_item (keys ! i) p'"
      by blast
    with it show "\<exists>j < length keys. \<exists>p'.
                 keys ! j = keys ! i \<and> cached ! j = Some p' \<and> 4 \<le> length p' \<and>
                 ?result (keys ! i) = Some (decode_item (keys ! i) p')"
      by blast
  qed
  from g l n pres inv show ?thesis by blast
qed

theorem GetMulti_malformed_isolated_witness:
  "snd (GetMulti fake (Inr demo_conn) [''a'', ''b'', ''c'']) =
     Some (MultiError
            [None,
             Some (Errorf ''redis: cached item should be atleast 4 bytes, got %d'' [2]),
             None]) \<and>
   (\<exists>result. fst (GetMulti fake (Inr demo_conn) [''a'', ''b'', ''c'']) = Some result \<and>
      result ''a'' = Some \<lparr>Key = ''a'', Flags = 7, Value = [120], Expiration = 0,
                            casInfo = Bytes [7, 0, 0, 0, 120]\<rparr> \<and>
      result ''b'' = None \<and> result ''c'' = None)"
proof -
  let ?keys = "[''a'', ''b'', ''c'']"
  let ?cached = "[Some [7, 0, 0, 0, 120], Some [1, 2], None] :: byte list option list"
  have h1: "?keys \<noteq> []" by simp
  have h2: "MGET fake demo_conn ?keys = Inr ?cached"
    by (simp add: fake_def demo_conn_def fresh_conn_def)
  have h3: "length ?cached = length ?keys" by simp
  have bad: "\<exists>i < length ?keys. \<exists>p. ?cached ! i = Some p \<and> length p < 4"
    by (rule exI [of _ 1]) simp
  from GetMulti_malformed_isolated [OF h1 h2 h3]
  obtain result me' where
    g: "GetMulti fake (Inr demo_conn) ?keys =
          (Some result,
           if \<exists>i < length ?keys. \<exists>p. ?cached ! i = Some p \<and> length p < 4
           then Some (MultiError me') else None)" and
    l: "length me' = length ?keys" and
    n: "\<forall>i < length ?keys.
              me' ! i =
                (case ?cached ! i of
                   None \<Rightarrow> None
                 | Some p \<Rightarrow>
                     if length p < 4
                     then Some (Errorf ''redis: cached item should be atleast 4 bytes, got %d''
                                  [length p])
                     else None)" and
    pres: "\<forall>i < length ?keys. \<forall>p. ?cached ! i = Some p \<longrightarrow> 4 \<le> length p \<longrightarrow>
              (\<exists>j < length ?keys. \<exists>p'.
                 ?keys ! j = ?keys ! i \<and> ?cached ! j = Some p' \<and> 4 \<le> length p' \<and>
                 result (?keys ! i) = Some (decode_item (?keys ! i) p'))" and
    inv: "\<forall>k item. result k = Some item \<longrightarrow>
              (\<exists>i < length ?keys. \<exists>p.
                 ?keys ! i = k \<and> ?cached ! i = Some p \<and> 4 \<le> length p \<and>
                 item = decode_item k p)"
    by blast
  from l obtain x y z where me: "me' = [x, y, z]"
    by (auto simp add: length_Suc_conv numeral_3_eq_3)
  from n have "me' ! 0 = None" "me' ! 1 = Some (Errorf ''redis: cached item should be atleast 4 bytes, got %d'' [2])"
      "me' ! 2 = None"
    by simp_all
  then have me3: "me' = [None, Some (Errorf ''redis: cached item should be atleast 4 bytes, got %d'' [2]), None]"
    by (simp add: me)
  have s: "snd (GetMulti fake (Inr demo_conn) ?keys) = Some (MultiError me')"
    using g bad by simp
  have f: "fst (GetMulti fake (Inr demo_conn) ?keys) = Some result"
    using g by simp
  have idx: "i < length ?keys \<Longrightarrow> i = 0 \<or> i = 1 \<or> i = 2" for i
    by auto
  from pres have "\<exists>j < length ?keys. \<exists>p'.
                 ?keys ! j = ''a'' \<and> ?cached ! j = Some p' \<and> 4 \<le> length p' \<and>
                 result ''a'' = Some (decode_item ''a'' p')"
    by force
  then obtain j p' where j: "j < length ?keys" "?keys ! j = ''a''" "?cached ! j = Some p'"
      "result ''a'' = Some (decode_item ''a'' p')"
    by blast
  from idx [OF j(1)] j(2) have "j = 0" by auto
  with j have a: "result ''a'' = Some (decode_item ''a'' [7, 0, 0, 0, 120])" by simp
  have du: "Uint32 [7, 0, 0, 0] = 7" by (simp add: Uint32_def)
  have a': "result ''a'' = Some \<lparr>Key = ''a'', Flags = 7, Value = [120], Expiration = 0,
                            casInfo = Bytes [7, 0, 0, 0, 120]\<rparr>"
    using a by (simp add: decode_item_def du)
  have b: "result ''b'' = None"
  proof (cases "result ''b''")
    case None
    then show ?thesis .
  next
    case (Some item)
    with inv obtain i p where i: "i < length ?keys" "?keys ! i = ''b''" "?cached ! i = Some p"
        "4 \<le> length p"
      by blast
    from idx [OF i(1)] i(2) have "i = 1" by auto
    with i(3) have "p = [1, 2]" by simp
    with i(4) show ?thesis by simp
  qed
  have c: "result ''c'' = None"
  proof (cases "result ''c''")
    case None
    then show ?thesis .
  next
    case (Some item)
    with inv obtain i p where i: "i < length ?keys" "?keys ! i = ''c''" "?cached ! i = Some p"
      by blast
    from idx [OF i(1)] i(2) have "i = 2" by auto
    with i show ?thesis by simp
  qed
  from s f a' b c me3 show ?thesis by simp
qed

subsection \<open>The expiration handed to the script\<close>















subsection \<open>The queuing goroutine\<close>

lemma goroutine_step_ended:
  "n < queued st \<Longrightarrow> goroutine_step R q n st = st"
  by (simp add: goroutine_step_def)

lemma goroutine_steps_ended:
  "n < queued st \<Longrightarrow> (goroutine_step R q n ^^ k) st = st"
  by (induction k) (simp_all add: goroutine_step_ended)

lemma goroutine_step_queue:
  assumes "queued st = k" and "k < n" and "q k (conn st) = (cmd, e, c')"
  shows "goroutine_step R q n st =
           st\<lparr>conn := c',
              me := (case e of None \<Rightarrow> me st | Some x \<Rightarrow> (me st)[k := Some x]),
              queued := Suc k,
              sent := (case cmd of None \<Rightarrow> sent st
                       | Some (name, args) \<Rightarrow> sent st @ [(k, name, args)])\<rparr>"
  using assms by (cases e; cases cmd) (auto simp add: goroutine_step_def)

lemma goroutine_step_flush:
  assumes "queued st = n"
  shows "goroutine_step R q n st =
           st\<lparr>conn := snd (Flush R (conn st)), flushErr := fst (Flush R (conn st)),
              queued := Suc n\<rparr>"
  using assms by (simp add: goroutine_step_def split: prod.splits)

text \<open>What the goroutine alone leaves behind after \<open>k\<close> of its queuing steps.\<close>

lemma goroutine_queuing:
  assumes "k \<le> n"
  shows "queued ((goroutine_step R q n ^^ k) (start n c)) = k \<and>
         length (me ((goroutine_step R q n ^^ k) (start n c))) = n \<and>
         flushErr ((goroutine_step R q n ^^ k) (start n c)) = None \<and>
         hasErr ((goroutine_step R q n ^^ k) (start n c)) = False \<and>
         received ((goroutine_step R q n ^^ k) (start n c)) = [] \<and>
         (\<forall>i < k. me ((goroutine_step R q n ^^ k) (start n c)) ! i
                    = fst (snd (q i (conn ((goroutine_step R q n ^^ i) (start n c)))))) \<and>
         (\<forall>i. k \<le> i \<longrightarrow> i < n \<longrightarrow> me ((goroutine_step R q n ^^ k) (start n c)) ! i = None) \<and>
         (\<forall>i name args. (i, name, args) \<in> set (sent ((goroutine_step R q n ^^ k) (start n c))) \<longleftrightarrow>
            i < k \<and> fst (q i (conn ((goroutine_step R q n ^^ i) (start n c)))) = Some (name, args))"
  using assms
proof (induction k)
  case 0
  then show ?case by (simp add: start_def)
next
  case (Suc k)
  let ?G = "goroutine_step R q n"
  let ?st = "(?G ^^ k) (start n c)"
  let ?st' = "(?G ^^ Suc k) (start n c)"
  from Suc have IH:
    "queued ?st = k" "length (me ?st) = n" "flushErr ?st = None" "hasErr ?st = False"
    "received ?st = []"
    "\<forall>i < k. me ?st ! i = fst (snd (q i (conn ((?G ^^ i) (start n c)))))"
    "\<forall>i. k \<le> i \<longrightarrow> i < n \<longrightarrow> me ?st ! i = None"
    "\<forall>i name args. (i, name, args) \<in> set (sent ?st) \<longleftrightarrow>
            i < k \<and> fst (q i (conn ((?G ^^ i) (start n c)))) = Some (name, args)"
    by simp_all
  from Suc.prems have kn: "k < n" by simp
  obtain cmd e c' where qk: "q k (conn ?st) = (cmd, e, c')"
    by (cases "q k (conn ?st)")
  have "?st' = ?G ?st" by simp
  also have "\<dots> =
           ?st\<lparr>conn := c',
              me := (case e of None \<Rightarrow> me ?st | Some x \<Rightarrow> (me ?st)[k := Some x]),
              queued := Suc k,
              sent := (case cmd of None \<Rightarrow> sent ?st
                       | Some (name, args) \<Rightarrow> sent ?st @ [(k, name, args)])\<rparr>"
    using IH(1) kn qk by (rule goroutine_step_queue)
  finally have step: "?st' =
           ?st\<lparr>conn := c',
              me := (case e of None \<Rightarrow> me ?st | Some x \<Rightarrow> (me ?st)[k := Some x]),
              queued := Suc k,
              sent := (case cmd of None \<Rightarrow> sent ?st
                       | Some (name, args) \<Rightarrow> sent ?st @ [(k, name, args)])\<rparr>" .
  have me_k: "me ?st' ! k = e"
    unfolding step using IH(2) IH(7) kn by (cases e) simp_all
  have me_other: "i \<noteq> k \<Longrightarrow> me ?st' ! i = me ?st ! i" for i
    unfolding step by (cases e) simp_all
  have len: "length (me ?st') = n"
    unfolding step using IH(2) by (cases e) simp_all
  have others: "queued ?st' = Suc k" "flushErr ?st' = None" "hasErr ?st' = False"
      "received ?st' = []"
    unfolding step using IH(3,4,5) by simp_all
  have p6: "\<forall>i < Suc k. me ?st' ! i = fst (snd (q i (conn ((?G ^^ i) (start n c)))))"
  proof (intro allI impI)
    fix i assume "i < Suc k"
    then consider "i < k" | "i = k" by linarith
    then show "me ?st' ! i = fst (snd (q i (conn ((?G ^^ i) (start n c)))))"
    proof cases
      case 1
      then show ?thesis using me_other [of i] IH(6) by simp
    next
      case 2
      then show ?thesis using me_k qk by simp
    qed
  qed
  have p7: "\<forall>i. Suc k \<le> i \<longrightarrow> i < n \<longrightarrow> me ?st' ! i = None"
    using me_other IH(7) by simp
  have p8: "\<forall>i name args. (i, name, args) \<in> set (sent ?st') \<longleftrightarrow>
            i < Suc k \<and> fst (q i (conn ((?G ^^ i) (start n c)))) = Some (name, args)"
  proof (cases cmd)
    case None
    then have "sent ?st' = sent ?st" unfolding step by simp
    then show ?thesis using IH(8) qk None by (auto simp add: less_Suc_eq)
  next
    case (Some na)
    obtain name args where na: "na = (name, args)" by (cases na)
    then have "sent ?st' = sent ?st @ [(k, name, args)]"
      unfolding step using Some by simp
    then show ?thesis using IH(8) qk Some na by (auto simp add: less_Suc_eq)
  qed
  from others len p6 p7 p8 show ?case by blast
qed

lemma goroutine_ended:
  "queued ((goroutine_step R q n ^^ Suc n) (start n c)) = Suc n \<and>
   length (me ((goroutine_step R q n ^^ Suc n) (start n c))) = n \<and>
   flushErr ((goroutine_step R q n ^^ Suc n) (start n c))
     = fst (Flush R (conn ((goroutine_step R q n ^^ n) (start n c)))) \<and>
   hasErr ((goroutine_step R q n ^^ Suc n) (start n c)) = False \<and>
   received ((goroutine_step R q n ^^ Suc n) (start n c)) = [] \<and>
   me ((goroutine_step R q n ^^ Suc n) (start n c)) = me ((goroutine_step R q n ^^ n) (start n c)) \<and>
   sent ((goroutine_step R q n ^^ Suc n) (start n c)) = sent ((goroutine_step R q n ^^ n) (start n c))"
proof -
  let ?G = "goroutine_step R q n"
  let ?st = "(?G ^^ n) (start n c)"
  from goroutine_queuing [where k = n and n = n and R = R and q = q and c = c] have q:
    "queued ?st = n" "length (me ?st) = n" "hasErr ?st = False" "received ?st = []"
    by simp_all
  have "(?G ^^ Suc n) (start n c) = ?G ?st" by simp
  also have "\<dots> = ?st\<lparr>conn := snd (Flush R (conn ?st)), flushErr := fst (Flush R (conn ?st)),
                       queued := Suc n\<rparr>"
    using q(1) by (rule goroutine_step_flush)
  finally have step: "(?G ^^ Suc n) (start n c) =
      ?st\<lparr>conn := snd (Flush R (conn ?st)), flushErr := fst (Flush R (conn ?st)),
          queued := Suc n\<rparr>" .
  show ?thesis
    unfolding step using q by simp
qed

subsection \<open>The draining loop once the goroutine has ended\<close>

lemma drain_ended_Cons:
  assumes "n < queued st"
  shows "drain (goroutine_step R q n) rcv sched (i # is) st =
           (if flushErr st \<noteq> None then (tl sched, st)
            else if me st ! i \<noteq> None
            then drain (goroutine_step R q n) rcv (tl sched) is (st\<lparr>hasErr := True\<rparr>)
            else (case rcv (conn st) of
                    (raw, e, c') \<Rightarrow>
                      drain (goroutine_step R q n) rcv (tl sched) is
                        (st\<lparr>conn := c',
                            me := (case e of None \<Rightarrow> me st | Some x \<Rightarrow> (me st)[i := Some x]),
                            hasErr := (hasErr st \<or> e \<noteq> None),
                            received := received st @ [(i, raw)]\<rparr>)))"
  by (simp add: goroutine_steps_ended [OF assms] Let_def)

lemma drain_ended_frame:
  assumes "n < queued st"
  shows "queued (snd (drain (goroutine_step R q n) rcv sched js st)) = queued st \<and>
         flushErr (snd (drain (goroutine_step R q n) rcv sched js st)) = flushErr st \<and>
         sent (snd (drain (goroutine_step R q n) rcv sched js st)) = sent st \<and>
         length (me (snd (drain (goroutine_step R q n) rcv sched js st))) = length (me st)"
  using assms
proof (induction js arbitrary: sched st)
  case Nil
  then show ?case by simp
next
  case (Cons i js)
  show ?case
  proof (cases "flushErr st \<noteq> None")
    case True
    then show ?thesis by (simp add: drain_ended_Cons [OF Cons.prems] del: drain.simps)
  next
    case nf: False
    show ?thesis
    proof (cases "me st ! i \<noteq> None")
      case True
      have e: "n < queued (st\<lparr>hasErr := True\<rparr>)" using Cons.prems by simp
      from Cons.IH [OF e, of "tl sched"] nf True show ?thesis
        by (simp add: drain_ended_Cons [OF Cons.prems] del: drain.simps)
    next
      case False
      obtain raw e c' where r: "rcv (conn st) = (raw, e, c')" by (cases "rcv (conn st)")
      let ?st = "st\<lparr>conn := c',
                    me := (case e of None \<Rightarrow> me st | Some x \<Rightarrow> (me st)[i := Some x]),
                    hasErr := (hasErr st \<or> e \<noteq> None),
                    received := received st @ [(i, raw)]\<rparr>"
      have e': "n < queued ?st" using Cons.prems by simp
      have l: "length (me ?st) = length (me st)" by (cases e) simp_all
      from Cons.IH [OF e', of "tl sched"] nf False r l show ?thesis
        by (simp add: drain_ended_Cons [OF Cons.prems] del: drain.simps)
    qed
  qed
qed

lemma pipelined_unfold:
  assumes "drain (goroutine_step R q n) rcv sched [0..<n] (start n c) = (sched', st)"
      and "(goroutine_step R q n ^^ ahead sched') st = st'"
      and "(goroutine_step R q n ^^ Suc n) st' = fin"
  shows "pipelined R q rcv n sched c =
           (if flushErr st' \<noteq> None then flushErr st'
            else if hasErr st' then Some (MultiError (me st'))
            else None,
            fin)"
  unfolding pipelined_def assms(1) prod.case Let_def assms(2) assms(3) ..

text \<open>
  With the goroutine ended before the caller's first action, the call returns the flush
  error if the flush failed, and otherwise the MultiError if some slot failed.
\<close>

lemma pipelined_joined:
  "fst (pipelined R q rcv n (joined n) c) =
     (case flushErr (snd (pipelined R q rcv n (joined n) c)) of
        Some e \<Rightarrow> Some e
      | None \<Rightarrow>
          if hasErr (snd (pipelined R q rcv n (joined n) c))
          then Some (MultiError (me (snd (pipelined R q rcv n (joined n) c))))
          else None) \<and>
   flushErr (snd (pipelined R q rcv n (joined n) c))
     = fst (Flush R (conn ((goroutine_step R q n ^^ n) (start n c))))"
proof -
  let ?G = "goroutine_step R q n"
  let ?S = "(?G ^^ Suc n) (start n c)"
  have S: "queued ?S = Suc n" "hasErr ?S = False"
      "flushErr ?S = fst (Flush R (conn ((?G ^^ n) (start n c))))"
    using goroutine_ended [where R = R and q = q and n = n and c = c] by simp_all
  then have ended: "n < queued ?S" by simp
  show ?thesis
  proof (cases n)
    case 0
    have d: "drain ?G rcv (joined n) [0..<n] (start n c) = (joined n, start n c)"
      using 0 by simp
    have a: "(?G ^^ ahead (joined n)) (start n c) = ?S"
      by (simp add: joined_def ahead_def)
    have b: "(?G ^^ Suc n) ?S = ?S" using ended by (rule goroutine_steps_ended)
    show ?thesis
      unfolding pipelined_unfold [OF d a b]
      using S by (simp del: funpow.simps split: option.splits)
  next
    case (Suc m)
    then have up: "[0..<n] = 0 # [1..<n]" by (simp add: upt_rec)
    let ?D = "drain ?G rcv [(0, 0)] [0..<n] ?S"
    have a0: "(?G ^^ ahead (joined n)) (start n c) = ?S"
      by (simp add: joined_def ahead_def)
    have a1: "(?G ^^ meanwhile (joined n)) ?S = ?S"
      by (simp add: joined_def meanwhile_def)
    have a2: "(?G ^^ ahead [(0, 0)]) ?S = ?S" "(?G ^^ meanwhile [(0, 0)]) ?S = ?S"
      by (simp_all add: ahead_def meanwhile_def)
    have t: "tl (joined n) = tl [(0, 0)]" by (simp add: joined_def)
    have d: "drain ?G rcv (joined n) [0..<n] (start n c) = ?D"
      unfolding up drain.simps Let_def a0 a1 a2 t ..
    obtain sched' st where D: "?D = (sched', st)" by (cases ?D)
    from drain_ended_frame [OF ended, where R = R and q = q and rcv = rcv
            and sched = "[(0, 0)]" and js = "[0..<n]"] D
    have f: "queued st = Suc n" "flushErr st = flushErr ?S"
      using S by (simp_all del: funpow.simps)
    then have e2: "n < queued st" by simp
    have i1: "(?G ^^ ahead sched') st = st" using e2 by (rule goroutine_steps_ended)
    have i2: "(?G ^^ Suc n) st = st" using e2 by (rule goroutine_steps_ended)
    show ?thesis
      unfolding pipelined_unfold [OF d [unfolded D] i1 i2]
      using f S by (simp del: funpow.simps split: option.splits)
  qed
qed

lemma drain_ended_step:
  assumes "n < queued st" and "flushErr st = None" and "i < length (me st)"
      and "\<forall>c. fst (snd (rcv c)) = tr (fst (rcv c))"
  shows "\<exists>st1. drain (goroutine_step R q n) rcv sched (i # js) st
                 = drain (goroutine_step R q n) rcv (tl sched) js st1 \<and>
               n < queued st1 \<and> flushErr st1 = None \<and> length (me st1) = length (me st) \<and>
               (\<forall>j. j \<noteq> i \<longrightarrow> me st1 ! j = me st ! j) \<and>
               (me st ! i \<noteq> None \<longrightarrow>
                  me st1 ! i = me st ! i \<and> received st1 = received st \<and> hasErr st1) \<and>
               (me st ! i = None \<longrightarrow>
                  (\<exists>raw. received st1 = received st @ [(i, raw)] \<and> me st1 ! i = tr raw \<and>
                         (hasErr st1 \<longleftrightarrow> hasErr st \<or> tr raw \<noteq> None)))"
proof (cases "me st ! i \<noteq> None")
  case True
  let ?st1 = "st\<lparr>hasErr := True\<rparr>"
  have "drain (goroutine_step R q n) rcv sched (i # js) st
          = drain (goroutine_step R q n) rcv (tl sched) js ?st1"
    using True assms(2) by (simp add: drain_ended_Cons [OF assms(1)] del: drain.simps)
  then show ?thesis
    using True assms(1,2) by (intro exI [of _ ?st1]) simp
next
  case False
  obtain raw e c' where r: "rcv (conn st) = (raw, e, c')" by (cases "rcv (conn st)")
  with assms(4) have e: "e = tr raw" by (metis fst_conv snd_conv)
  let ?st1 = "st\<lparr>conn := c',
                  me := (case e of None \<Rightarrow> me st | Some x \<Rightarrow> (me st)[i := Some x]),
                  hasErr := (hasErr st \<or> e \<noteq> None),
                  received := received st @ [(i, raw)]\<rparr>"
  have d: "drain (goroutine_step R q n) rcv sched (i # js) st
          = drain (goroutine_step R q n) rcv (tl sched) js ?st1"
    using False assms(2) r by (simp add: drain_ended_Cons [OF assms(1)] del: drain.simps)
  have l: "length (me ?st1) = length (me st)" by (cases e) simp_all
  have o: "\<forall>j. j \<noteq> i \<longrightarrow> me ?st1 ! j = me st ! j" by (cases e) simp_all
  have "me ?st1 ! i = e"
    using False assms(3) by (cases e) simp_all
  then have m: "me ?st1 ! i = tr raw"
    by (simp only: e)
  have h: "hasErr ?st1 \<longleftrightarrow> hasErr st \<or> tr raw \<noteq> None" using e by simp
  have rc: "received ?st1 = received st @ [(i, raw)]" by simp
  have k: "n < queued ?st1" "flushErr ?st1 = None" using assms(1,2) by simp_all
  from d l o m h rc k False show ?thesis
    by (intro exI [of _ ?st1]) blast
qed

lemma drain_ended_slots:
  assumes "n < queued st" and "flushErr st = None" and "distinct js"
      and "\<forall>j \<in> set js. j < length (me st)"
      and "\<forall>c. fst (snd (rcv c)) = tr (fst (rcv c))"
  shows "(\<forall>j. j \<notin> set js \<longrightarrow>
            me (snd (drain (goroutine_step R q n) rcv sched js st)) ! j = me st ! j) \<and>
         (\<forall>j \<in> set js. me st ! j \<noteq> None \<longrightarrow>
            me (snd (drain (goroutine_step R q n) rcv sched js st)) ! j = me st ! j) \<and>
         (\<forall>j raw. (j, raw) \<in> set (received (snd (drain (goroutine_step R q n) rcv sched js st))) \<longrightarrow>
            (j, raw) \<in> set (received st) \<or>
            (j \<in> set js \<and> me st ! j = None \<and>
             me (snd (drain (goroutine_step R q n) rcv sched js st)) ! j = tr raw)) \<and>
         (\<forall>j \<in> set js. me st ! j = None \<longrightarrow>
            (\<exists>raw. (j, raw) \<in> set (received (snd (drain (goroutine_step R q n) rcv sched js st))) \<and>
                   me (snd (drain (goroutine_step R q n) rcv sched js st)) ! j = tr raw)) \<and>
         (hasErr (snd (drain (goroutine_step R q n) rcv sched js st)) \<longleftrightarrow>
            hasErr st \<or>
            (\<exists>j \<in> set js. me (snd (drain (goroutine_step R q n) rcv sched js st)) ! j \<noteq> None)) \<and>
         set (received st) \<subseteq> set (received (snd (drain (goroutine_step R q n) rcv sched js st)))"
  using assms(1-4)
proof (induction js arbitrary: sched st)
  case Nil
  then show ?case by simp
next
  case (Cons i js)
  let ?D = "\<lambda>sched js st. snd (drain (goroutine_step R q n) rcv sched js st)"
  from Cons.prems have i: "i < length (me st)" and ni: "i \<notin> set js" and dj: "distinct js"
    by simp_all
  from drain_ended_step [OF Cons.prems(1,2) i assms(5), where R = R and q = q
         and sched = sched and js = js]
  obtain st1 where all:
    "drain (goroutine_step R q n) rcv sched (i # js) st
          = drain (goroutine_step R q n) rcv (tl sched) js st1 \<and>
     n < queued st1 \<and> flushErr st1 = None \<and> length (me st1) = length (me st) \<and>
     (\<forall>j. j \<noteq> i \<longrightarrow> me st1 ! j = me st ! j) \<and>
     (me st ! i \<noteq> None \<longrightarrow>
          me st1 ! i = me st ! i \<and> received st1 = received st \<and> hasErr st1) \<and>
     (me st ! i = None \<longrightarrow>
          (\<exists>raw. received st1 = received st @ [(i, raw)] \<and> me st1 ! i = tr raw \<and>
                 (hasErr st1 \<longleftrightarrow> hasErr st \<or> tr raw \<noteq> None)))"
    by (rule exE)
  from all have
    d: "drain (goroutine_step R q n) rcv sched (i # js) st
          = drain (goroutine_step R q n) rcv (tl sched) js st1" and
    k: "n < queued st1" "flushErr st1 = None" and
    l: "length (me st1) = length (me st)" and
    o: "\<forall>j. j \<noteq> i \<longrightarrow> me st1 ! j = me st ! j" and
    t: "me st ! i \<noteq> None \<longrightarrow>
          me st1 ! i = me st ! i \<and> received st1 = received st \<and> hasErr st1" and
    f: "me st ! i = None \<longrightarrow>
          (\<exists>raw. received st1 = received st @ [(i, raw)] \<and> me st1 ! i = tr raw \<and>
                 (hasErr st1 \<longleftrightarrow> hasErr st \<or> tr raw \<noteq> None))"
    by blast+
  have b: "\<forall>j \<in> set js. j < length (me st1)" using Cons.prems(4) l by simp
  note IH = Cons.IH [OF k dj b, of "tl sched"]
  let ?st' = "?D (tl sched) js st1"
  have eq: "?D sched (i # js) st = ?st'" using d by simp
  from IH have
    I1: "\<forall>j. j \<notin> set js \<longrightarrow> me ?st' ! j = me st1 ! j" and
    I2: "\<forall>j \<in> set js. me st1 ! j \<noteq> None \<longrightarrow> me ?st' ! j = me st1 ! j" and
    I3: "\<forall>j raw. (j, raw) \<in> set (received ?st') \<longrightarrow>
            (j, raw) \<in> set (received st1) \<or>
            (j \<in> set js \<and> me st1 ! j = None \<and> me ?st' ! j = tr raw)" and
    I4: "\<forall>j \<in> set js. me st1 ! j = None \<longrightarrow>
            (\<exists>raw. (j, raw) \<in> set (received ?st') \<and> me ?st' ! j = tr raw)" and
    I5: "hasErr ?st' \<longleftrightarrow> hasErr st1 \<or> (\<exists>j \<in> set js. me ?st' ! j \<noteq> None)" and
    I6: "set (received st1) \<subseteq> set (received ?st')"
    by blast+
  have mi: "me ?st' ! i = me st1 ! i" using I1 ni by simp
  have sub: "set (received st) \<subseteq> set (received st1)" using t f by (cases "me st ! i") auto
  have P1: "\<forall>j. j \<notin> set (i # js) \<longrightarrow> me ?st' ! j = me st ! j"
    using I1 o by simp
  have P2: "\<forall>j \<in> set (i # js). me st ! j \<noteq> None \<longrightarrow> me ?st' ! j = me st ! j"
  proof (intro ballI impI)
    fix j assume j: "j \<in> set (i # js)" and nn: "me st ! j \<noteq> None"
    show "me ?st' ! j = me st ! j"
    proof (cases "j = i")
      case True
      then show ?thesis using mi t nn by simp
    next
      case False
      then have "j \<in> set js" "me st1 ! j = me st ! j" using j o by simp_all
      then show ?thesis using I2 nn by simp
    qed
  qed
  have P3: "\<forall>j raw. (j, raw) \<in> set (received ?st') \<longrightarrow>
            (j, raw) \<in> set (received st) \<or>
            (j \<in> set (i # js) \<and> me st ! j = None \<and> me ?st' ! j = tr raw)"
  proof (intro allI impI)
    fix j raw assume jr: "(j, raw) \<in> set (received ?st')"
    from I3 [rule_format, OF jr] consider "(j, raw) \<in> set (received st1)"
      | "j \<in> set js" "me st1 ! j = None" "me ?st' ! j = tr raw" by auto
    then show "(j, raw) \<in> set (received st) \<or>
            (j \<in> set (i # js) \<and> me st ! j = None \<and> me ?st' ! j = tr raw)"
    proof cases
      case 1
      show ?thesis
      proof (cases "me st ! i")
        case None
        with f obtain raw' where r': "received st1 = received st @ [(i, raw')]"
            "me st1 ! i = tr raw'" by auto
        with 1 have "(j, raw) \<in> set (received st) \<or> (j = i \<and> raw = raw')" by auto
        then show ?thesis using None r' mi by auto
      next
        case (Some a)
        with t 1 show ?thesis by simp
      qed
    next
      case 2
      with ni have "j \<noteq> i" by auto
      with 2 o show ?thesis by simp
    qed
  qed
  have P4: "\<forall>j \<in> set (i # js). me st ! j = None \<longrightarrow>
            (\<exists>raw. (j, raw) \<in> set (received ?st') \<and> me ?st' ! j = tr raw)"
  proof (intro ballI impI)
    fix j assume j: "j \<in> set (i # js)" and n: "me st ! j = None"
    show "\<exists>raw. (j, raw) \<in> set (received ?st') \<and> me ?st' ! j = tr raw"
    proof (cases "j = i")
      case True
      with f n obtain raw where "received st1 = received st @ [(i, raw)]" "me st1 ! i = tr raw"
        by auto
      then have "(i, raw) \<in> set (received ?st')" "me ?st' ! i = tr raw"
        using I6 mi by auto
      then show ?thesis using True by blast
    next
      case False
      then have "j \<in> set js" "me st1 ! j = None" using j o n by simp_all
      then show ?thesis using I4 by simp
    qed
  qed
  have P5: "hasErr ?st' \<longleftrightarrow> hasErr st \<or> (\<exists>j \<in> set (i # js). me ?st' ! j \<noteq> None)"
  proof (cases "me st ! i")
    case None
    with f obtain raw where "me st1 ! i = tr raw" "hasErr st1 \<longleftrightarrow> hasErr st \<or> tr raw \<noteq> None"
      by auto
    then show ?thesis using I5 mi by auto
  next
    case (Some a)
    with t have "hasErr st1" "me ?st' ! i \<noteq> None" using mi by simp_all
    then show ?thesis using I5 by auto
  qed
  have P6: "set (received st) \<subseteq> set (received ?st')" using sub I6 by blast
  show ?case
    unfolding eq using P1 P2 P3 P4 P5 P6 by blast
qed

lemma drain_ended_flush_failed:
  assumes "n < queued st" and "flushErr st \<noteq> None"
  shows "snd (drain (goroutine_step R q n) rcv sched js st) = st"
proof (cases js)
  case Nil
  then show ?thesis by simp
next
  case (Cons i js')
  show ?thesis
    unfolding Cons using assms(2)
    by (simp add: drain_ended_Cons [OF assms(1)] del: drain.simps)
qed

lemma pipelined_joined_state:
  "snd (pipelined R q rcv n (joined n) c) =
     snd (drain (goroutine_step R q n) rcv [(0, 0)] [0..<n]
            ((goroutine_step R q n ^^ Suc n) (start n c)))"
proof -
  let ?G = "goroutine_step R q n"
  let ?S = "(?G ^^ Suc n) (start n c)"
  have S: "queued ?S = Suc n"
    using goroutine_ended [where R = R and q = q and n = n and c = c] by simp
  then have ended: "n < queued ?S" by simp
  show ?thesis
  proof (cases n)
    case 0
    have d: "drain ?G rcv (joined n) [0..<n] (start n c) = (joined n, start n c)"
      using 0 by simp
    have a: "(?G ^^ ahead (joined n)) (start n c) = ?S"
      by (simp add: joined_def ahead_def)
    have b: "(?G ^^ Suc n) ?S = ?S" using ended by (rule goroutine_steps_ended)
    have e: "[0..<n] = []" using 0 by simp
    show ?thesis
      unfolding pipelined_unfold [OF d a b] e by simp
  next
    case (Suc m)
    then have up: "[0..<n] = 0 # [1..<n]" by (simp add: upt_rec)
    let ?D = "drain ?G rcv [(0, 0)] [0..<n] ?S"
    have a0: "(?G ^^ ahead (joined n)) (start n c) = ?S"
      by (simp add: joined_def ahead_def)
    have a1: "(?G ^^ meanwhile (joined n)) ?S = ?S"
      by (simp add: joined_def meanwhile_def)
    have a2: "(?G ^^ ahead [(0, 0)]) ?S = ?S" "(?G ^^ meanwhile [(0, 0)]) ?S = ?S"
      by (simp_all add: ahead_def meanwhile_def)
    have t: "tl (joined n) = tl [(0, 0)]" by (simp add: joined_def)
    have d: "drain ?G rcv (joined n) [0..<n] (start n c) = ?D"
      unfolding up drain.simps Let_def a0 a1 a2 t ..
    obtain sched' st where D: "?D = (sched', st)" by (cases ?D)
    from drain_ended_frame [OF ended, where R = R and q = q and rcv = rcv
            and sched = "[(0, 0)]" and js = "[0..<n]"] D
    have f: "queued st = Suc n"
      using S by (simp_all del: funpow.simps)
    then have e2: "n < queued st" by simp
    have i1: "(?G ^^ ahead sched') st = st" using e2 by (rule goroutine_steps_ended)
    have i2: "(?G ^^ Suc n) st = st" using e2 by (rule goroutine_steps_ended)
    show ?thesis
      unfolding pipelined_unfold [OF d [unfolded D] i1 i2] D by simp
  qed
qed

subsection \<open>CompareAndSwapMulti when the goroutine has ended first\<close>

lemma queue_cas_no_token:
  "\<forall>cas. casInfo item \<noteq> Bytes cas \<Longrightarrow> queue_cas R item c = (None, Some ErrNotStored, c)"
  by (cases "casInfo item") (simp_all add: queue_cas_def)

lemma queue_cas_token:
  "casInfo item = Bytes cas \<Longrightarrow> fst (queue_cas R item c) \<noteq> None"
  by (simp add: queue_cas_def Let_def split: prod.splits)

lemma receive_cas_translates:
  "fst (snd (receive_cas R c)) =
     (case fst (receive_cas R c) of
        None \<Rightarrow> None
      | Some err \<Rightarrow>
          Some (if err = ErrNil then ErrNotStored
                else if Error_text R err = ''cas conflict'' then ErrCASConflict
                else err))"
  by (simp add: receive_cas_def split: prod.splits option.splits)

text \<open>
  In the schedule where the goroutine has queued and flushed before the caller looks,
  \<open>CompareAndSwapMulti\<close> treats every slot as the interface promises: an item
  without a token gets \<open>ErrNotStored\<close>, sends no command and awaits no reply; a slot
  whose reply is the conflict signal gets \<open>ErrCASConflict\<close>; a slot whose reply is no
  error keeps nil; and the MultiError is returned exactly when some slot failed and the
  flush did not.
\<close>

lemma CompareAndSwapMulti_joined:
  fixes R :: "'c redis" and items :: "Item list" and c :: 'c
  defines "out \<equiv> pipelined R (\<lambda>i. queue_cas R (items ! i)) (receive_cas R) (length items)
                    (joined (length items)) c"
  shows "CompareAndSwapMulti R (Inr c) items (joined (length items)) = (fst out, Some (snd out))"
    and "i < length items \<Longrightarrow> \<forall>cas. casInfo (items ! i) \<noteq> Bytes cas \<Longrightarrow>
           me (snd out) ! i = Some ErrNotStored \<and>
           (\<forall>name args. (i, name, args) \<notin> set (sent (snd out))) \<and>
           (\<forall>raw. (i, raw) \<notin> set (received (snd out)))"
    and "i < length items \<Longrightarrow> (i, Some err) \<in> set (received (snd out)) \<Longrightarrow> err \<noteq> ErrNil \<Longrightarrow>
           Error_text R err = ''cas conflict'' \<Longrightarrow> me (snd out) ! i = Some ErrCASConflict"
    and "i < length items \<Longrightarrow> (i, None) \<in> set (received (snd out)) \<Longrightarrow> me (snd out) ! i = None"
    and "flushErr (snd out) = None \<Longrightarrow>
           fst out = (if \<exists>i < length items. me (snd out) ! i \<noteq> None
                      then Some (MultiError (me (snd out))) else None)"
    and "flushErr (snd out) = Some e \<Longrightarrow> fst out = Some e"
proof -
  let ?n = "length items"
  let ?q = "\<lambda>i. queue_cas R (items ! i)"
  let ?G = "goroutine_step R ?q ?n"
  let ?S = "(?G ^^ Suc ?n) (start ?n c)"
  define tr where "tr raw =
     (case raw of
        None \<Rightarrow> None
      | Some err \<Rightarrow>
          Some (if err = ErrNil then ErrNotStored
                else if Error_text R err = ''cas conflict'' then ErrCASConflict
                else err))" for raw
  have tr: "\<forall>c. fst (snd (receive_cas R c)) = tr (fst (receive_cas R c))"
    by (simp add: receive_cas_translates tr_def)
  have fin: "snd out = snd (drain ?G (receive_cas R) [(0, 0)] [0..<?n] ?S)"
    unfolding out_def by (rule pipelined_joined_state)
  have S: "queued ?S = Suc ?n" "length (me ?S) = ?n" "hasErr ?S = False" "received ?S = []"
      "me ?S = me ((?G ^^ ?n) (start ?n c))" "sent ?S = sent ((?G ^^ ?n) (start ?n c))"
    using goroutine_ended [where R = R and q = ?q and n = ?n and c = c] by blast+
  then have ended: "?n < queued ?S" by simp
  from goroutine_queuing [where k = ?n and n = ?n and R = R and q = ?q and c = c]
  have Q: "\<forall>i < ?n. me ?S ! i = fst (snd (?q i (conn ((?G ^^ i) (start ?n c)))))"
      "\<forall>i name args. (i, name, args) \<in> set (sent ?S) \<longleftrightarrow>
            i < ?n \<and> fst (?q i (conn ((?G ^^ i) (start ?n c)))) = Some (name, args)"
    unfolding S(5,6) by simp_all
  have frame: "sent (snd out) = sent ?S" "flushErr (snd out) = flushErr ?S"
      "length (me (snd out)) = ?n"
    unfolding fin
    using drain_ended_frame [OF ended, where R = R and q = ?q and rcv = "receive_cas R"
            and sched = "[(0, 0)]" and js = "[0..<?n]"] S(2)
    by simp_all
  show "CompareAndSwapMulti R (Inr c) items (joined (length items)) = (fst out, Some (snd out))"
    by (simp add: CompareAndSwapMulti_def out_def split: prod.splits)
  have slots:
    "flushErr ?S = None \<Longrightarrow>
       (\<forall>j \<in> set [0..<?n]. me ?S ! j \<noteq> None \<longrightarrow> me (snd out) ! j = me ?S ! j) \<and>
       (\<forall>j raw. (j, raw) \<in> set (received (snd out)) \<longrightarrow>
            (j, raw) \<in> set (received ?S) \<or>
            (j \<in> set [0..<?n] \<and> me ?S ! j = None \<and> me (snd out) ! j = tr raw)) \<and>
       (hasErr (snd out) \<longleftrightarrow>
            hasErr ?S \<or> (\<exists>j \<in> set [0..<?n]. me (snd out) ! j \<noteq> None))"
    unfolding fin
    using drain_ended_slots [OF ended _ _ _ tr, where R = R and q = ?q
            and sched = "[(0, 0)]" and js = "[0..<?n]"] S(2)
    by simp
  have failed: "flushErr ?S \<noteq> None \<Longrightarrow> snd out = ?S"
    unfolding fin using ended by (rule drain_ended_flush_failed)
  have rec: "(j, raw) \<in> set (received (snd out)) \<Longrightarrow>
               j < ?n \<and> me ?S ! j = None \<and> me (snd out) ! j = tr raw" for j raw
  proof (cases "flushErr ?S = None")
    case True
    assume "(j, raw) \<in> set (received (snd out))"
    with slots [OF True] S(4) show ?thesis by auto
  next
    case False
    assume "(j, raw) \<in> set (received (snd out))"
    with failed [OF False] S(4) show ?thesis by simp
  qed
  show "me (snd out) ! i = Some ErrNotStored \<and>
           (\<forall>name args. (i, name, args) \<notin> set (sent (snd out))) \<and>
           (\<forall>raw. (i, raw) \<notin> set (received (snd out)))"
    if i: "i < length items" and nt: "\<forall>cas. casInfo (items ! i) \<noteq> Bytes cas"
  proof -
    have qi: "?q i x = (None, Some ErrNotStored, x)" for x
      using nt by (rule queue_cas_no_token)
    have m: "me ?S ! i = Some ErrNotStored" using Q(1) i qi by simp
    have ns: "\<forall>name args. (i, name, args) \<notin> set (sent ?S)" using Q(2) qi by simp
    have mo: "me (snd out) ! i = Some ErrNotStored"
    proof (cases "flushErr ?S = None")
      case True
      with slots i m show ?thesis by simp
    next
      case False
      with failed m show ?thesis by simp
    qed
    have nr: "\<forall>raw. (i, raw) \<notin> set (received (snd out))" using rec m by force
    from mo ns nr frame(1) show ?thesis by simp
  qed
  show "me (snd out) ! i = Some ErrCASConflict"
    if "i < length items" and "(i, Some err) \<in> set (received (snd out))" and "err \<noteq> ErrNil"
      and "Error_text R err = ''cas conflict''"
    using rec [OF that(2)] that(3,4) by (simp add: tr_def)
  show "me (snd out) ! i = None"
    if "i < length items" and "(i, None) \<in> set (received (snd out))"
    using rec [OF that(2)] by (simp add: tr_def)
  have res: "fst out =
     (case flushErr (snd out) of
        Some e \<Rightarrow> Some e
      | None \<Rightarrow> if hasErr (snd out) then Some (MultiError (me (snd out))) else None)"
    unfolding out_def using pipelined_joined [of R ?q "receive_cas R" ?n c] by simp
  show "fst out = (if \<exists>i < length items. me (snd out) ! i \<noteq> None
                      then Some (MultiError (me (snd out))) else None)"
    if "flushErr (snd out) = None"
  proof -
    from that frame(2) have "flushErr ?S = None" by simp
    from slots [OF this] S(3) have "hasErr (snd out) \<longleftrightarrow> (\<exists>i < ?n. me (snd out) ! i \<noteq> None)"
      by auto
    with res that show ?thesis by simp
  qed
  show "fst out = Some e" if "flushErr (snd out) = Some e"
    using res that by simp
qed

subsection \<open>What holds in every schedule\<close>

lemma goroutine_step_sent:
  assumes "\<forall>i c. i < n \<longrightarrow> fst (q i c) \<noteq> None \<longrightarrow> P i"
      and "\<forall>x \<in> set (sent st). P (fst x)"
  shows "\<forall>x \<in> set (sent (goroutine_step R q n st)). P (fst x)"
proof (cases "queued st < n")
  case True
  obtain cmd e c' where qk: "q (queued st) (conn st) = (cmd, e, c')"
    by (cases "q (queued st) (conn st)")
  have "cmd \<noteq> None \<longrightarrow> P (queued st)"
    using assms(1) True qk by (metis fst_conv)
  moreover have "goroutine_step R q n st =
           st\<lparr>conn := c',
              me := (case e of None \<Rightarrow> me st | Some x \<Rightarrow> (me st)[queued st := Some x]),
              queued := Suc (queued st),
              sent := (case cmd of None \<Rightarrow> sent st
                       | Some (name, args) \<Rightarrow> sent st @ [(queued st, name, args)])\<rparr>"
    using refl True qk by (rule goroutine_step_queue)
  ultimately show ?thesis
    using assms(2) by (cases cmd) auto
next
  case False
  then show ?thesis
    using assms(2) by (auto simp add: goroutine_step_def split: prod.splits)
qed

lemma goroutine_steps_sent:
  assumes "\<forall>i c. i < n \<longrightarrow> fst (q i c) \<noteq> None \<longrightarrow> P i"
      and "\<forall>x \<in> set (sent st). P (fst x)"
  shows "\<forall>x \<in> set (sent ((goroutine_step R q n ^^ k) st)). P (fst x)"
proof (induction k)
  case 0
  then show ?case using assms(2) by simp
next
  case (Suc k)
  then show ?case using goroutine_step_sent [OF assms(1) Suc] by simp
qed

lemma drain_sent:
  assumes "\<forall>i c. i < n \<longrightarrow> fst (q i c) \<noteq> None \<longrightarrow> P i"
      and "\<forall>x \<in> set (sent st). P (fst x)"
  shows "\<forall>x \<in> set (sent (snd (drain (goroutine_step R q n) rcv sched js st))). P (fst x)"
  using assms(2)
proof (induction js arbitrary: sched st)
  case Nil
  then show ?case by simp
next
  case (Cons i js)
  let ?G = "goroutine_step R q n"
  let ?st1 = "(?G ^^ ahead sched) st"
  let ?st2 = "(?G ^^ meanwhile sched) ?st1"
  have s1: "\<forall>x \<in> set (sent ?st1). P (fst x)"
    using assms(1) Cons.prems by (rule goroutine_steps_sent)
  have s2: "\<forall>x \<in> set (sent ?st2). P (fst x)"
    using assms(1) s1 by (rule goroutine_steps_sent)
  show ?case
  proof (cases "flushErr ?st1 \<noteq> None")
    case True
    then show ?thesis using s1 by (simp add: Let_def del: funpow.simps)
  next
    case nf: False
    show ?thesis
    proof (cases "me ?st1 ! i \<noteq> None")
      case True
      have "\<forall>x \<in> set (sent (?st1\<lparr>hasErr := True\<rparr>)). P (fst x)" using s1 by simp
      from Cons.IH [OF this, of "tl sched"] nf True show ?thesis
        by (simp add: Let_def del: funpow.simps)
    next
      case False
      obtain raw e c' where r: "rcv (conn ?st2) = (raw, e, c')" by (cases "rcv (conn ?st2)")
      let ?st3 = "?st2\<lparr>conn := c',
                       me := (case e of None \<Rightarrow> me ?st2 | Some x \<Rightarrow> (me ?st2)[i := Some x]),
                       hasErr := (hasErr ?st2 \<or> e \<noteq> None),
                       received := received ?st2 @ [(i, raw)]\<rparr>"
      have "\<forall>x \<in> set (sent ?st3). P (fst x)" using s2 by simp
      from Cons.IH [OF this, of "tl sched"] nf False r show ?thesis
        by (simp add: Let_def del: funpow.simps)
    qed
  qed
qed

lemma pipelined_sent:
  assumes "\<forall>i c. i < n \<longrightarrow> fst (q i c) \<noteq> None \<longrightarrow> P i"
  shows "\<forall>x \<in> set (sent (snd (pipelined R q rcv n sched c))). P (fst x)"
proof -
  let ?G = "goroutine_step R q n"
  obtain sched' st where D: "drain ?G rcv sched [0..<n] (start n c) = (sched', st)"
    by (cases "drain ?G rcv sched [0..<n] (start n c)")
  have "\<forall>x \<in> set (sent (start n c)). P (fst x)" by (simp add: start_def)
  from drain_sent [OF assms this, where R = R and rcv = rcv and sched = sched and js = "[0..<n]"] D
  have "\<forall>x \<in> set (sent st). P (fst x)" by simp
  with assms have "\<forall>x \<in> set (sent ((?G ^^ ahead sched') st)). P (fst x)"
    by (rule goroutine_steps_sent)
  with assms have "\<forall>x \<in> set (sent ((?G ^^ Suc n) ((?G ^^ ahead sched') st))). P (fst x)"
    by (rule goroutine_steps_sent)
  then show ?thesis
    unfolding pipelined_unfold [OF D refl refl] by simp
qed

text \<open>
  Whatever the schedule, \<open>CompareAndSwapMulti\<close> sends a command only for a slot whose
  item carries a token.
\<close>

lemma CompareAndSwapMulti_sends_only_with_token:
  assumes "CompareAndSwapMulti R (Inr c) items sched = (res, Some fin)"
      and "(i, name, args) \<in> set (sent fin)"
  shows "\<exists>cas. casInfo (items ! i) = Bytes cas"
proof -
  let ?q = "\<lambda>i. queue_cas R (items ! i)"
  have q: "\<forall>i c. i < length items \<longrightarrow> fst (?q i c) \<noteq> None \<longrightarrow> (\<exists>cas. casInfo (items ! i) = Bytes cas)"
    using queue_cas_no_token [where R = R] by (metis fst_conv)
  from assms(1) have "fin = snd (pipelined R ?q (receive_cas R) (length items) sched c)"
    by (simp add: CompareAndSwapMulti_def split: prod.splits)
  with pipelined_sent [OF q, where R = R and rcv = "receive_cas R" and sched = sched and c = c]
    assms(2)
  show ?thesis by force
qed

subsection \<open>The flush error when the goroutine has ended first\<close>

text \<open>
  In the schedule where the goroutine has queued and flushed before the caller looks,
  each of the three batch operations returns the flush error when the flush failed, and
  returns the MultiError, when some slot failed, only when the flush did not fail.
\<close>

lemma flush_error_supersedes_joined:
  shows "flushErr (snd (set_items R nx items (joined (length items)) c)) = Some e \<Longrightarrow>
           fst (set_items R nx items (joined (length items)) c) = Some e"
    and "flushErr (snd (set_items R nx items (joined (length items)) c)) = None \<Longrightarrow>
           fst (set_items R nx items (joined (length items)) c) =
             (if hasErr (snd (set_items R nx items (joined (length items)) c))
              then Some (MultiError (me (snd (set_items R nx items (joined (length items)) c))))
              else None)"
    and "flushErr (snd (pipelined R (\<lambda>i. queue_cas R (items ! i)) (receive_cas R) (length items)
                          (joined (length items)) c)) = Some e \<Longrightarrow>
           fst (CompareAndSwapMulti R (Inr c) items (joined (length items))) = Some e"
    and "flushErr (snd (pipelined R (\<lambda>i. queue_del R (keys ! i)) (receive_del R) (length keys)
                          (joined (length keys)) c)) = Some e \<Longrightarrow>
           fst (backend_DeleteMulti R (Inr c) keys (joined (length keys))) = Some e"
proof -
  show "flushErr (snd (set_items R nx items (joined (length items)) c)) = Some e \<Longrightarrow>
           fst (set_items R nx items (joined (length items)) c) = Some e"
    unfolding set_items_def
    using pipelined_joined [THEN conjunct1, of R "\<lambda>i. queue_set R nx (items ! i)" "receive_set R nx"
            "length items" c]
    by simp
  show "flushErr (snd (set_items R nx items (joined (length items)) c)) = None \<Longrightarrow>
           fst (set_items R nx items (joined (length items)) c) =
             (if hasErr (snd (set_items R nx items (joined (length items)) c))
              then Some (MultiError (me (snd (set_items R nx items (joined (length items)) c))))
              else None)"
    unfolding set_items_def
    using pipelined_joined [THEN conjunct1, of R "\<lambda>i. queue_set R nx (items ! i)" "receive_set R nx"
            "length items" c]
    by simp
  show "flushErr (snd (pipelined R (\<lambda>i. queue_cas R (items ! i)) (receive_cas R) (length items)
                          (joined (length items)) c)) = Some e \<Longrightarrow>
           fst (CompareAndSwapMulti R (Inr c) items (joined (length items))) = Some e"
    using pipelined_joined [THEN conjunct1, of R "\<lambda>i. queue_cas R (items ! i)" "receive_cas R"
            "length items" c]
    by (simp add: CompareAndSwapMulti_def case_prod_beta)
  show "flushErr (snd (pipelined R (\<lambda>i. queue_del R (keys ! i)) (receive_del R) (length keys)
                          (joined (length keys)) c)) = Some e \<Longrightarrow>
           fst (backend_DeleteMulti R (Inr c) keys (joined (length keys))) = Some e"
    using pipelined_joined [THEN conjunct1, of R "\<lambda>i. queue_del R (keys ! i)" "receive_del R"
            "length keys" c]
    by (simp add: backend_DeleteMulti_def case_prod_beta)
qed

subsection \<open>The unsynchronised schedules\<close>

text \<open>
  C4. In \<open>CompareAndSwapMulti\<close> an item without a valid CAS token is to end with
  \<open>ErrNotStored\<close> in its slot and without a command sent, a slot whose reply is the
  conflict signal with \<open>ErrCASConflict\<close>, and a slot that succeeds with no error.
  The goroutine does write \<open>ErrNotStored\<close> and sends nothing, and the caller does
  translate the conflict reply, but nothing in the source makes the caller wait for the
  goroutine. Evaluated here: a batch of one item without a token, in the schedule where
  the caller reads \<open>me[0]\<close> while it is still nil and then waits in \<open>Receive\<close> while
  the goroutine stores \<open>ErrNotStored\<close> in \<open>me[0]\<close> and flushes. No command was
  sent, so \<open>Receive\<close> times out, and the caller overwrites the slot with that error:
  the call returns a MultiError whose slot 0 is the time-out, not \<open>ErrNotStored\<close>.
\<close>

theorem CompareAndSwapMulti_no_token_raced:
  "fst (CompareAndSwapMulti fake (Inr fresh_conn) [no_token] [(0, 2)])
     = Some (MultiError [Some (Error ''i/o timeout'')]) \<and>
   map_option me (snd (CompareAndSwapMulti fake (Inr fresh_conn) [no_token] [(0, 2)]))
     = Some [Some (Error ''i/o timeout'')] \<and>
   map_option sent (snd (CompareAndSwapMulti fake (Inr fresh_conn) [no_token] [(0, 2)]))
     = Some [] \<and>
   map_option received (snd (CompareAndSwapMulti fake (Inr fresh_conn) [no_token] [(0, 2)]))
     = Some [(0, Some (Error ''i/o timeout''))] \<and>
   fst (CompareAndSwapMulti fake (Inr fresh_conn) [no_token] (joined 1))
     = Some (MultiError [Some ErrNotStored])"
  by code_simp

text \<open>
  C5. When the flush fails, each batch call is to return that one flush error, and a
  MultiError only when the flush succeeded. The final checks do prefer \<open>flushErr\<close>,
  but the caller reads it without waiting for the goroutine that writes it. Evaluated
  here on a connection whose flush fails: for a batch of one item, \<open>Receive\<close> fails
  before the goroutine has flushed, the caller records that error in slot 0 and returns
  the MultiError; for an empty batch, the caller's loop has nothing to do, and the call
  returns nil. In both the flush fails afterwards, as \<open>flushErr\<close> of the final state
  shows, and its error is never returned. With the goroutine ended first, the same calls
  return the flush error.
\<close>

theorem flush_error_lost_raced:
  "fst (SetMulti fake (Inr (fresh_conn\<lparr>broken := True\<rparr>)) [] []) = None \<and>
   map_option flushErr (snd (SetMulti fake (Inr (fresh_conn\<lparr>broken := True\<rparr>)) [] []))
     = Some (Some (Error ''broken pipe'')) \<and>
   fst (SetMulti fake (Inr (fresh_conn\<lparr>broken := True\<rparr>)) [no_token] [])
     = Some (MultiError [Some (Error ''i/o timeout'')]) \<and>
   map_option flushErr (snd (SetMulti fake (Inr (fresh_conn\<lparr>broken := True\<rparr>)) [no_token] []))
     = Some (Some (Error ''broken pipe'')) \<and>
   fst (SetMulti fake (Inr (fresh_conn\<lparr>broken := True\<rparr>)) [] (joined 0))
     = Some (Error ''broken pipe'') \<and>
   fst (SetMulti fake (Inr (fresh_conn\<lparr>broken := True\<rparr>)) [no_token] (joined 1))
     = Some (Error ''broken pipe'')"
  by code_simp

subsection \<open>The CAS token and the Value slice\<close>

lemma PutUint32_Uint32:
  assumes "length b = 4"
  shows "PutUint32 (Uint32 b) = b"
proof -
  from assms obtain b0 b1 b2 b3 where b: "b = [b0, b1, b2, b3]"
    by (auto simp add: length_Suc_conv numeral_eq_Suc)
  let ?w = "ucast b0 OR push_bit 8 (ucast b1) OR push_bit 16 (ucast b2) OR push_bit 24 (ucast b3)
              :: uint32"
  have 0: "ucast ?w = b0"
    by (rule bit_word_eqI) (auto simp add: bit_simps dest: bit_imp_le_length)
  have 1: "ucast (drop_bit 8 ?w) = b1"
    by (rule bit_word_eqI) (auto simp add: bit_simps dest: bit_imp_le_length)
  have 2: "ucast (drop_bit 16 ?w) = b2"
    by (rule bit_word_eqI) (auto simp add: bit_simps dest: bit_imp_le_length)
  have 3: "ucast (drop_bit 24 ?w) = b3"
    by (rule bit_word_eqI) (auto simp add: bit_simps dest: bit_imp_le_length)
  have u: "Uint32 [b0, b1, b2, b3] = ?w"
    by (simp add: Uint32_def)
  show ?thesis
    unfolding b u by (simp only: PutUint32_def 0 1 2 3)
qed

lemma payload_split:
  assumes "4 \<le> length p"
  shows "PutUint32 (Uint32 (take 4 p)) @ drop 4 p = p"
proof -
  have "length (take 4 p) = 4" using assms by simp
  then have "PutUint32 (Uint32 (take 4 p)) = take 4 p" by (rule PutUint32_Uint32)
  then show ?thesis by simp
qed

lemma read_slice_cong:
  "arrays h' (base s) = arrays h (base s) \<Longrightarrow> read_slice h' s = read_slice h s"
  by (simp add: read_slice_def)

lemma item_of_cong:
  "arrays h' (base (Value_ref r)) = arrays h (base (Value_ref r)) \<Longrightarrow>
   arrays h' (base (casInfo_ref r)) = arrays h (base (casInfo_ref r)) \<Longrightarrow>
   item_of h' r = item_of h r"
  by (simp add: item_of_def read_slice_def)

lemma read_slice_rest:
  "read_slice h (s\<lparr>off := off s + 4, len := len s - 4\<rparr>) = drop 4 (read_slice h s)"
  by (simp add: read_slice_def drop_take add.commute)

lemma new_array_props:
  assumes "new_array h bs = (s, h')"
  shows "base s = next_free h" and "next_free h' = Suc (next_free h)"
    and "read_slice h' s = bs"
    and "\<forall>a. a \<noteq> next_free h \<longrightarrow> arrays h' a = arrays h a"
  using assms by (auto simp add: new_array_def read_slice_def)

lemma receive_bulks_props:
  assumes "receive_bulks h vs = (ss, h')"
  shows "length ss = length vs \<and> next_free h \<le> next_free h' \<and>
         (\<forall>a < next_free h. arrays h' a = arrays h a) \<and>
         map (map_option (read_slice h')) ss = vs \<and>
         (\<forall>s. Some s \<in> set ss \<longrightarrow>
            next_free h \<le> base s \<and> base s < next_free h' \<and>
            length (read_slice h' s) = len s)"
  using assms
proof (induction vs arbitrary: h ss h')
  case Nil
  then show ?case by simp
next
  case (Cons v vs)
  show ?case
  proof (cases v)
    case None
    obtain ss1 h1 where r: "receive_bulks h vs = (ss1, h1)" by (cases "receive_bulks h vs")
    with Cons.prems None have e: "ss = None # ss1" "h' = h1" by simp_all
    from Cons.IH [OF r] show ?thesis unfolding e None by simp
  next
    case (Some bs)
    obtain s h1 where n: "new_array h bs = (s, h1)" by (cases "new_array h bs")
    obtain ss1 h2 where r: "receive_bulks h1 vs = (ss1, h2)" by (cases "receive_bulks h1 vs")
    with Cons.prems Some n have e: "ss = Some s # ss1" "h' = h2" by simp_all
    note np = new_array_props [OF n]
    from Cons.IH [OF r] have IH:
      "length ss1 = length vs" "next_free h1 \<le> next_free h2"
      "\<forall>a < next_free h1. arrays h2 a = arrays h1 a"
      "map (map_option (read_slice h2)) ss1 = vs"
      "\<forall>s. Some s \<in> set ss1 \<longrightarrow>
            next_free h1 \<le> base s \<and> base s < next_free h2 \<and>
            length (read_slice h2 s) = len s"
      by simp_all
    have keep: "arrays h2 (base s) = arrays h1 (base s)"
      using IH(3) np(1,2) by simp
    have rs: "read_slice h2 s = bs"
      using read_slice_cong [OF keep] np(3) by simp
    have ls: "len s = length bs" using n by (auto simp add: new_array_def)
    have old: "\<forall>a < next_free h. arrays h2 a = arrays h a"
      using IH(3) np(2,4) by simp
    show ?thesis
      unfolding e Some using IH np(1,2) rs ls old by auto
  qed
qed

text \<open>
  The loop on slices computes what the loop on byte strings computes: reading the
  references of its result in its final store gives the items of \<open>GetMulti_loop\<close>, the
  errors are the same, the arrays that existed are untouched, and the references stay in
  order.
\<close>

lemma GetMulti_loop_refs_simulates:
  assumes "\<forall>i k s. (i, k, Some s) \<in> set slots \<longrightarrow>
             base s < n0 \<and> length (read_slice h0 s) = len s"
      and "refs_ok n0 h result"
      and "\<forall>a < n0. arrays h a = arrays h0 a"
  shows "\<exists>result' h'.
           GetMulti_loop_refs slots (result, me', hasErr', h) =
             (result',
              fst (snd (GetMulti_loop (map (\<lambda>(i, k, so). (i, k, map_option (read_slice h0) so)) slots)
                          (\<lambda>k. map_option (item_of h) (result k), me', hasErr'))),
              snd (snd (GetMulti_loop (map (\<lambda>(i, k, so). (i, k, map_option (read_slice h0) so)) slots)
                          (\<lambda>k. map_option (item_of h) (result k), me', hasErr'))),
              h') \<and>
           refs_ok n0 h' result' \<and>
           (\<forall>a < next_free h. arrays h' a = arrays h a) \<and>
           (\<forall>k. map_option (item_of h') (result' k) =
                 fst (GetMulti_loop (map (\<lambda>(i, k, so). (i, k, map_option (read_slice h0) so)) slots)
                        (\<lambda>k. map_option (item_of h) (result k), me', hasErr')) k)"
  using assms
proof (induction slots arbitrary: result me' hasErr' h)
  case Nil
  then show ?case by simp
next
  case (Cons slot slots)
  obtain i key so where slot: "slot = (i, key, so)" by (cases slot)
  let ?V = "\<lambda>slots acc. GetMulti_loop (map (\<lambda>(i, k, so). (i, k, map_option (read_slice h0) so)) slots) acc"
  have rest: "\<forall>i k s. (i, k, Some s) \<in> set slots \<longrightarrow>
             base s < n0 \<and> length (read_slice h0 s) = len s"
    using Cons.prems(1) by simp
  show ?case
  proof (cases so)
    case None
    from Cons.IH [OF rest Cons.prems(2,3), of me' hasErr'] show ?thesis
      unfolding slot None by simp
  next
    case (Some s)
    from Cons.prems(1) have bs: "base s < n0" and ls: "length (read_slice h0 s) = len s"
      unfolding slot Some by simp_all
    have same: "read_slice h s = read_slice h0 s"
      using Cons.prems(3) bs by (intro read_slice_cong) simp
    show ?thesis
    proof (cases "len s < 4")
      case True
      from Cons.IH [OF rest Cons.prems(2,3),
          of "me'[i := Some (Errorf ''redis: cached item should be atleast 4 bytes, got %d'' [len s])]"
             True]
      show ?thesis
        unfolding slot Some using True ls by simp
    next
      case False
      let ?p = "read_slice h0 s"
      have lp: "\<not> length ?p < 4" using False ls by simp
      then have br: "binary_Read ?p = Inr (Uint32 (take 4 ?p), drop 4 ?p)"
        by (auto simp add: binary_Read_def)
      obtain cas h1 where n: "new_array h ?p = (cas, h1)" by (cases "new_array h ?p")
      note np = new_array_props [OF n]
      let ?it = "\<lparr>Key_ref = key, Flags_ref = Uint32 (take 4 ?p),
                    Value_ref = s\<lparr>off := off s + 4, len := len s - 4\<rparr>,
                    Expiration_ref = 0, casInfo_ref = cas\<rparr>"
      let ?result1 = "result(key \<mapsto> ?it)"
      from Cons.prems(2) have ok: "n0 \<le> next_free h"
        "\<forall>k it. result k = Some it \<longrightarrow>
           base (Value_ref it) < n0 \<and> n0 \<le> base (casInfo_ref it) \<and>
           base (casInfo_ref it) < next_free h"
        by (simp_all add: refs_ok_def)
      have ok1: "refs_ok n0 h1 ?result1"
        unfolding refs_ok_def using ok np(1,2) bs by (auto simp add: less_Suc_eq)
      have old1: "\<forall>a < n0. arrays h1 a = arrays h0 a"
        using Cons.prems(3) np(4) ok(1) by simp
      have keep: "\<forall>a < next_free h. arrays h1 a = arrays h a"
        using np(4) by simp
      have val: "read_slice h1 (s\<lparr>off := off s + 4, len := len s - 4\<rparr>) = drop 4 ?p"
      proof -
        have "arrays h1 (base s) = arrays h (base s)" using keep bs ok(1) by simp
        then have "read_slice h1 s = read_slice h s" by (rule read_slice_cong)
        then have "drop 4 (read_slice h1 s) = drop 4 ?p" using same by simp
        then show ?thesis by (simp only: read_slice_rest)
      qed
      have new: "item_of h1 ?it =
                   \<lparr>Key = key, Flags = Uint32 (take 4 ?p), Value = drop 4 ?p, Expiration = 0,
                    casInfo = Bytes ?p\<rparr>"
        using val np(3) by (simp add: item_of_def)
      have others: "result k = Some it \<Longrightarrow> item_of h1 it = item_of h it" for k it
        using ok(2) [rule_format, of k it] keep ok(1) by (intro item_of_cong) simp_all
      have acc: "(\<lambda>k. map_option (item_of h1) (?result1 k)) =
                 (\<lambda>k. map_option (item_of h) (result k))
                   (key \<mapsto> \<lparr>Key = key, Flags = Uint32 (take 4 ?p), Value = drop 4 ?p,
                              Expiration = 0, casInfo = Bytes ?p\<rparr>)"
      proof
        fix k
        show "map_option (item_of h1) (?result1 k) =
                ((\<lambda>k. map_option (item_of h) (result k))
                   (key \<mapsto> \<lparr>Key = key, Flags = Uint32 (take 4 ?p), Value = drop 4 ?p,
                              Expiration = 0, casInfo = Bytes ?p\<rparr>)) k"
        proof (cases "k = key")
          case True
          then show ?thesis using new by simp
        next
          case False
          then show ?thesis using others [of k] by (cases "result k") simp_all
        qed
      qed
      from Cons.IH [OF rest ok1 old1, of me' hasErr']
      obtain result' h' where
        IH: "GetMulti_loop_refs slots (?result1, me', hasErr', h1) =
               (result',
                fst (snd (?V slots (\<lambda>k. map_option (item_of h1) (?result1 k), me', hasErr'))),
                snd (snd (?V slots (\<lambda>k. map_option (item_of h1) (?result1 k), me', hasErr'))),
                h') \<and>
             refs_ok n0 h' result' \<and>
             (\<forall>a < next_free h1. arrays h' a = arrays h1 a) \<and>
             (\<forall>k. map_option (item_of h') (result' k) =
                   fst (?V slots (\<lambda>k. map_option (item_of h1) (?result1 k), me', hasErr')) k)"
        by blast
      have stepR: "GetMulti_loop_refs (slot # slots) (result, me', hasErr', h) =
                     GetMulti_loop_refs slots (?result1, me', hasErr', h1)"
        unfolding slot Some using False br same n by simp
      have stepV: "?V (slot # slots) (\<lambda>k. map_option (item_of h) (result k), me', hasErr') =
                     ?V slots (\<lambda>k. map_option (item_of h1) (?result1 k), me', hasErr')"
        unfolding slot Some acc using lp br by simp
      have keep': "\<forall>a < next_free h. arrays h' a = arrays h a"
        using IH keep np(2) by simp
      show ?thesis
        unfolding stepR stepV using IH keep' by blast
    qed
  qed
qed

lemma value_slots:
  "map (\<lambda>(i, k, so). (i, k, map_option f so)) (zip is (zip ks ss)) =
     zip is (zip ks (map (map_option f) ss))"
  by (simp add: zip_map2 case_prod_beta)

text \<open>
  What a successful \<open>GetMulti\<close> on slices amounts to: the reply, the loop's result on
  byte strings, and the order of the references.
\<close>

lemma GetMulti_refs_result:
  assumes "GetMulti_refs R pool keys h = ((Some result, err), h')"
  shows "\<exists>c reply n0.
           pool = Inr c \<and> keys \<noteq> [] \<and> MGET R c keys = Inr reply \<and>
           length reply = length keys \<and>
           GetMulti R pool keys = (Some (\<lambda>k. map_option (item_of h') (result k)), err) \<and>
           next_free h \<le> n0 \<and> refs_ok n0 h' result \<and>
           (\<forall>a < next_free h. arrays h' a = arrays h a)"
proof -
  from assms have ne: "keys \<noteq> []"
    by (auto simp add: GetMulti_refs_def split: if_splits)
  from assms ne obtain c where pool: "pool = Inr c"
    by (cases pool) (auto simp add: GetMulti_refs_def)
  from assms ne pool obtain reply where mget: "MGET R c keys = Inr reply"
    by (cases "MGET R c keys") (auto simp add: GetMulti_refs_def)
  obtain cached h1 where rb: "receive_bulks h reply = (cached, h1)"
    by (cases "receive_bulks h reply")
  from receive_bulks_props [OF rb] have bp:
    "length cached = length reply" "next_free h \<le> next_free h1"
    "\<forall>a < next_free h. arrays h1 a = arrays h a"
    "map (map_option (read_slice h1)) cached = reply"
    "\<forall>s. Some s \<in> set cached \<longrightarrow>
        next_free h \<le> base s \<and> base s < next_free h1 \<and> length (read_slice h1 s) = len s"
    by simp_all
  from assms ne pool mget rb have len: "length cached = length keys"
    by (auto simp add: GetMulti_refs_def split: if_splits)
  let ?slots = "zip [0..<length keys] (zip keys cached)"
  let ?vslots = "zip [0..<length keys] (zip keys reply)"
  let ?me0 = "replicate (length keys) None :: error option list"
  have sl: "\<forall>i k s. (i, k, Some s) \<in> set ?slots \<longrightarrow>
              base s < next_free h1 \<and> length (read_slice h1 s) = len s"
  proof (intro allI impI)
    fix i k s assume "(i, k, Some s) \<in> set ?slots"
    then have "(k, Some s) \<in> set (zip keys cached)" by (rule set_zip_rightD)
    then have "Some s \<in> set cached" by (rule set_zip_rightD)
    with bp(5) show "base s < next_free h1 \<and> length (read_slice h1 s) = len s" by simp
  qed
  have ok0: "refs_ok (next_free h1) h1 Map.empty" by (simp add: refs_ok_def)
  have vs: "map (\<lambda>(i, k, so). (i, k, map_option (read_slice h1) so)) ?slots = ?vslots"
    unfolding value_slots bp(4) ..
  have e0: "(\<lambda>k. map_option (item_of h1) (Map.empty k)) = Map.empty" by simp
  have tr: "\<forall>a < next_free h1. arrays h1 a = arrays h1 a" by simp
  from GetMulti_loop_refs_simulates [OF sl ok0 tr, where me' = ?me0 and hasErr' = False]
  obtain result' h2 where sim:
    "GetMulti_loop_refs ?slots (Map.empty, ?me0, False, h1) =
       (result',
        fst (snd (GetMulti_loop ?vslots (Map.empty, ?me0, False))),
        snd (snd (GetMulti_loop ?vslots (Map.empty, ?me0, False))),
        h2)"
    "refs_ok (next_free h1) h2 result'"
    "\<forall>a < next_free h1. arrays h2 a = arrays h1 a"
    "\<forall>k. map_option (item_of h2) (result' k) =
          fst (GetMulti_loop ?vslots (Map.empty, ?me0, False)) k"
    unfolding vs e0 by auto
  obtain vres vme vhas where V: "GetMulti_loop ?vslots (Map.empty, ?me0, False) = (vres, vme, vhas)"
    by (cases "GetMulti_loop ?vslots (Map.empty, ?me0, False)")
  from assms ne pool mget rb len sim(1) V
  have out: "result = result'" "h' = h2" "err = (if vhas then Some (MultiError vme) else None)"
    by (auto simp add: GetMulti_refs_def split: if_splits)
  have veq: "vres = (\<lambda>k. map_option (item_of h') (result k))"
    using sim(4) V out by auto
  have lr: "length reply = length keys" using bp(1) len by simp
  have g: "GetMulti R pool keys = (Some (\<lambda>k. map_option (item_of h') (result k)), err)"
    using ne pool mget lr V veq out(3) by (simp add: GetMulti_def)
  have fr: "\<forall>a < next_free h. arrays h' a = arrays h a"
    using sim(3) bp(2,3) out(2) by simp
  from pool ne mget lr g bp(2) sim(2) fr out(1,2) show ?thesis by blast
qed

lemma write_slice_elsewhere:
  "a \<noteq> base s \<Longrightarrow> arrays (write_slice h s j b) a = arrays h a"
  by (simp add: write_slice_def)

text \<open>
  C10. For every item that \<open>GetMulti\<close> returns, the CAS token is the whole payload
  stored for the item's key, as the server's reply held it: the four bytes of the flags
  followed by the value. The token lies in an array of its own, allocated during the
  call, while every returned \<open>Value\<close> lies in an array of the reply. So a write through
  the \<open>Value\<close> slice of any returned item leaves the token's bytes as they were, and
  the token a later \<open>CompareAndSwapMulti\<close> reads from the item is still that payload.
\<close>

theorem GetMulti_token_is_copy:
  assumes "GetMulti_refs R pool keys h = ((Some result, err), h')"
      and "result k = Some it"
  shows "(\<exists>c reply i. pool = Inr c \<and> MGET R c keys = Inr reply \<and> i < length keys \<and>
            keys ! i = k \<and> reply ! i = Some (read_slice h' (casInfo_ref it))) \<and>
         read_slice h' (casInfo_ref it) = PutUint32 (Flags_ref it) @ read_slice h' (Value_ref it) \<and>
         next_free h \<le> base (casInfo_ref it) \<and>
         (\<forall>k' it' j b. result k' = Some it' \<longrightarrow>
            read_slice (write_slice h' (Value_ref it') j b) (casInfo_ref it)
              = read_slice h' (casInfo_ref it) \<and>
            casInfo (item_of (write_slice h' (Value_ref it') j b) it)
              = Bytes (read_slice h' (casInfo_ref it)))"
proof -
  from GetMulti_refs_result [OF assms(1)] obtain c reply n0 where
    r: "pool = Inr c" "keys \<noteq> []" "MGET R c keys = Inr reply" "length reply = length keys"
       "GetMulti R pool keys = (Some (\<lambda>k. map_option (item_of h') (result k)), err)"
       "next_free h \<le> n0" "refs_ok n0 h' result"
    by blast
  have lk: "length keys = length reply" using r(4) by simp
  from GetMulti_decoded [OF r(2,3,4)] r(1,5)
  have "(\<lambda>k. map_option (item_of h') (result k)) = map_of (rev (decoded_entries keys reply))"
    by simp
  then have "map_of (rev (decoded_entries keys reply)) k = Some (item_of h' it)"
    using assms(2) by (metis option.simps(9))
  then have "(k, item_of h' it) \<in> set (rev (decoded_entries keys reply))"
    by (rule map_of_SomeD)
  then have "(k, item_of h' it) \<in> set (decoded_entries keys reply)" by simp
  then obtain i p where ip: "i < length keys" "keys ! i = k" "reply ! i = Some p"
      "4 \<le> length p" "item_of h' it = decode_item k p"
    unfolding decoded_entries_iff [OF lk] by blast
  from ip(5) have tok: "read_slice h' (casInfo_ref it) = p"
    and fl: "Flags_ref it = Uint32 (take 4 p)"
    and va: "read_slice h' (Value_ref it) = drop 4 p"
    by (simp_all add: item_of_def decode_item_def)
  have 1: "\<exists>c reply i. pool = Inr c \<and> MGET R c keys = Inr reply \<and> i < length keys \<and>
            keys ! i = k \<and> reply ! i = Some (read_slice h' (casInfo_ref it))"
    using r(1,3) ip(1,2,3) tok by blast
  have 2: "read_slice h' (casInfo_ref it) = PutUint32 (Flags_ref it) @ read_slice h' (Value_ref it)"
    unfolding tok fl va using payload_split [OF ip(4)] by simp
  from r(7) assms(2) have b: "n0 \<le> base (casInfo_ref it)"
    by (simp add: refs_ok_def)
  have 3: "next_free h \<le> base (casInfo_ref it)" using b r(6) by simp
  have 4: "\<forall>k' it' j b. result k' = Some it' \<longrightarrow>
            read_slice (write_slice h' (Value_ref it') j b) (casInfo_ref it)
              = read_slice h' (casInfo_ref it) \<and>
            casInfo (item_of (write_slice h' (Value_ref it') j b) it)
              = Bytes (read_slice h' (casInfo_ref it))"
  proof (intro allI impI)
    fix k' it' j b' assume "result k' = Some it'"
    with r(7) have "base (Value_ref it') < n0" by (simp add: refs_ok_def)
    with b have "base (casInfo_ref it) \<noteq> base (Value_ref it')" by simp
    then have "arrays (write_slice h' (Value_ref it') j b') (base (casInfo_ref it))
                 = arrays h' (base (casInfo_ref it))"
      by (rule write_slice_elsewhere)
    then have "read_slice (write_slice h' (Value_ref it') j b') (casInfo_ref it)
                 = read_slice h' (casInfo_ref it)"
      by (rule read_slice_cong)
    then show "read_slice (write_slice h' (Value_ref it') j b') (casInfo_ref it)
              = read_slice h' (casInfo_ref it) \<and>
            casInfo (item_of (write_slice h' (Value_ref it') j b') it)
              = Bytes (read_slice h' (casInfo_ref it))"
      by (simp add: item_of_def)
  qed
  from 1 2 3 4 show ?thesis by blast
qed

lemma demo_refs_value:
  "fst (fst demo_refs) \<noteq> None \<and>
   the (fst (fst demo_refs)) ''a'' =
     Some \<lparr>Key_ref = ''a'', Flags_ref = 7, Value_ref = \<lparr>base = 0, off = 4, len = 1\<rparr>,
           Expiration_ref = 0, casInfo_ref = \<lparr>base = 2, off = 0, len = 5\<rparr>\<rparr> \<and>
   arrays (snd demo_refs) 0 = [7, 0, 0, 0, 120] \<and>
   arrays (snd demo_refs) 2 = [7, 0, 0, 0, 120]"
  by code_simp

theorem GetMulti_token_is_copy_witness:
  "read_slice (snd demo_refs) \<lparr>base = 2, off = 0, len = 5\<rparr> = [7, 0, 0, 0, 120] \<and>
   read_slice (write_slice (snd demo_refs) \<lparr>base = 0, off = 4, len = 1\<rparr> 0 255)
     \<lparr>base = 2, off = 0, len = 5\<rparr> = [7, 0, 0, 0, 120] \<and>
   read_slice (write_slice (snd demo_refs) \<lparr>base = 0, off = 4, len = 1\<rparr> 0 255)
     \<lparr>base = 0, off = 4, len = 1\<rparr> = [255]"
proof -
  let ?it = "\<lparr>Key_ref = ''a'', Flags_ref = 7, Value_ref = \<lparr>base = 0, off = 4, len = 1\<rparr>,
               Expiration_ref = 0, casInfo_ref = \<lparr>base = 2, off = 0, len = 5\<rparr>\<rparr>"
  let ?result = "the (fst (fst demo_refs))"
  from demo_refs_value have ne: "fst (fst demo_refs) \<noteq> None"
    and a: "?result ''a'' = Some ?it"
    and v: "arrays (snd demo_refs) 0 = [7, 0, 0, 0, 120]"
    by simp_all
  from ne have "fst (fst demo_refs) = Some ?result" by simp
  then have run: "GetMulti_refs fake (Inr demo_conn) [''a'', ''b'', ''c''] empty_store
                    = ((Some ?result, snd (fst demo_refs)), snd demo_refs)"
    unfolding demo_refs_def by (metis prod.collapse)
  note t = GetMulti_token_is_copy [OF run a]
  from t have tok: "read_slice (snd demo_refs) (casInfo_ref ?it)
                      = PutUint32 (Flags_ref ?it) @ read_slice (snd demo_refs) (Value_ref ?it)"
    by blast
  from t a have keep:
    "read_slice (write_slice (snd demo_refs) (Value_ref ?it) 0 255) (casInfo_ref ?it)
       = read_slice (snd demo_refs) (casInfo_ref ?it)"
    by blast
  have val: "read_slice (snd demo_refs) \<lparr>base = 0, off = 4, len = 1\<rparr> = [120]"
    by (simp add: read_slice_def v)
  have p: "PutUint32 7 = [7, 0, 0, 0]" by (simp add: PutUint32_def)
  have 1: "read_slice (snd demo_refs) \<lparr>base = 2, off = 0, len = 5\<rparr> = [7, 0, 0, 0, 120]"
    using tok by (simp add: val [simplified] p)
  have 2: "read_slice (write_slice (snd demo_refs) \<lparr>base = 0, off = 4, len = 1\<rparr> 0 255)
             \<lparr>base = 2, off = 0, len = 5\<rparr> = [7, 0, 0, 0, 120]"
    using keep 1 by simp
  have 3: "read_slice (write_slice (snd demo_refs) \<lparr>base = 0, off = 4, len = 1\<rparr> 0 255)
             \<lparr>base = 0, off = 4, len = 1\<rparr> = [255]"
    by (simp add: read_slice_def write_slice_def v)
  from 1 2 3 show ?thesis by blast
qed

end
